theory Spec2Isabelle
  imports Main "HOL-Library.Word" "HOL-Library.Monad_Syntax"
begin

section \<open>Memory, values and the environment\<close>

text \<open>
  The library is C99: a \<^verbatim>\<open>LinkedList\<close> struct owned by the caller, a chain of
  heap-allocated \<^verbatim>\<open>ListItem\<close> nodes, and one heap-allocated value buffer per node.
  Pointers are 64-bit addresses with \<^verbatim>\<open>NULL\<close> = 0, \<^verbatim>\<open>size_t\<close> is a 64-bit word and
  \<^verbatim>\<open>unsigned int\<close> a 32-bit word. The memory the library touches is an explicit store
  with one map per C type. A function returns \<open>None\<close> where the C program has no
  defined result: a dereference of an address that holds no object of the expected
  type, a \<^verbatim>\<open>free\<close> of something not allocated, or a loop that never ends.
\<close>

type_synonym addr = "64 word"
type_synonym size_t = "64 word"
type_synonym uint = "32 word"
type_synonym byte = "8 word"
type_synonym bytes = "byte list"

abbreviation NULL :: addr where
  "NULL \<equiv> 0"

text \<open>\<^verbatim>\<open>LINKEDLIST_SUCCESS\<close> of linkedlist.h and the three \<^verbatim>\<open>errno.h\<close> codes the library
  returns (the values of glibc and of the Windows CRT).\<close>

definition LINKEDLIST_SUCCESS :: int where
  "LINKEDLIST_SUCCESS = 0"

definition ENOMEM :: int where
  "ENOMEM = 12"

definition EINVAL :: int where
  "EINVAL = 22"

definition ERANGE :: int where
  "ERANGE = 34"

text \<open>\<^verbatim>\<open>struct _ListItem { void *_value; struct _ListItem *_next; }\<close>\<close>

record ListItem =
  item_value :: addr
  item_next :: addr

text \<open>
  The two hooks are C function pointers. A hook is handed pointers to value buffers; the
  model hands it their contents. \<^verbatim>\<open>copy(dest, src, n)\<close> maps the contents of \<open>dest\<close>
  before the call and the contents of \<open>src\<close> to the flag "returned non-NULL" and the
  contents of \<open>dest\<close> after the call; \<^verbatim>\<open>dealloc(ptr)\<close> maps the contents of the buffer
  before the call to its contents after it. Resources nested inside a value are part of
  its contents.
\<close>

type_synonym linkedlist_copyfunction_t = "bytes \<Rightarrow> bytes \<Rightarrow> size_t \<Rightarrow> bool \<times> bytes"
type_synonym linkedlist_deallocfunction_t = "bytes \<Rightarrow> bytes"

text \<open>The \<^verbatim>\<open>LinkedList\<close> struct; a hook that is \<^verbatim>\<open>NULL\<close> is \<open>None\<close>. The lock member is
  opaque to the list code and appears only through the calls made on it.\<close>

record LinkedList =
  head :: addr
  item_size :: size_t
  copy :: "linkedlist_copyfunction_t option"
  dealloc :: "linkedlist_deallocfunction_t option"

text \<open>Calls that leave the list code: the mutex primitives and the two hooks.\<close>

datatype event = MutexInit | MutexLock | MutexUnlock | MutexDestroy | CopyCall | DeallocCall

record world =
  lists :: "addr \<rightharpoonup> LinkedList"
  items :: "addr \<rightharpoonup> ListItem"
  bufs :: "addr \<rightharpoonup> bytes"
  trace :: "event list"

text \<open>
  What one call receives from outside the list code: the status the mutex primitive
  returns (\<^verbatim>\<open>pthread_mutex_init\<close> or \<^verbatim>\<open>pthread_mutex_lock\<close>), the places at which
  \<^verbatim>\<open>malloc\<close> would put a node and a value buffer, and the indeterminate bytes a freshly
  allocated value buffer holds.
\<close>

record env =
  mutex_status :: int
  item_place :: addr
  value_place :: addr
  value_junk :: bytes

definition log :: "event \<Rightarrow> world \<Rightarrow> world" where
  "log ev w = w\<lparr>trace := trace w @ [ev]\<rparr>"

text \<open>\<^verbatim>\<open>malloc\<close> returns storage that overlaps no live object, or \<^verbatim>\<open>NULL\<close>: a place that
  is \<^verbatim>\<open>NULL\<close> or already in use is an allocation failure.\<close>

definition malloc :: "world \<Rightarrow> addr \<Rightarrow> addr" where
  "malloc w place =
     (if place \<noteq> NULL \<and> lists w place = None \<and> items w place = None \<and> bufs w place = None
      then place else NULL)"

text \<open>The contents of a new buffer of \<open>n\<close> bytes: indeterminate, but \<open>n\<close> bytes.\<close>

definition fresh_buffer :: "size_t \<Rightarrow> bytes \<Rightarrow> bytes" where
  "fresh_buffer n junk = take (unat n) (junk @ replicate (unat n) 0)"

definition free_item :: "addr \<Rightarrow> world \<Rightarrow> world option" where
  "free_item p w =
     (if p = NULL then Some w
      else case items w p of None \<Rightarrow> None
           | Some _ \<Rightarrow> Some (w\<lparr>items := (items w)(p := None)\<rparr>))"

definition free_value :: "addr \<Rightarrow> world \<Rightarrow> world option" where
  "free_value p w =
     (if p = NULL then Some w
      else case bufs w p of None \<Rightarrow> None
           | Some _ \<Rightarrow> Some (w\<lparr>bufs := (bufs w)(p := None)\<rparr>))"

text \<open>\<^verbatim>\<open>memcpy(dest, src, n)\<close>: the first \<open>n\<close> bytes of \<open>dest\<close> become those of \<open>src\<close>;
  it returns \<open>dest\<close>.\<close>

definition memcpy :: linkedlist_copyfunction_t where
  "memcpy dest src n = (True, take (unat n) src @ drop (unat n) dest)"

section \<open>linkedlist.c\<close>

text \<open>An argument \<^verbatim>\<open>void *value\<close> or \<^verbatim>\<open>void *buffer\<close> of the caller is \<open>None\<close> when it is
  \<^verbatim>\<open>NULL\<close> and otherwise the contents of the caller's buffer; an output buffer is
  returned with its contents after the call.\<close>

definition linkedlist_initialize ::
  "world \<Rightarrow> env \<Rightarrow> addr \<Rightarrow> size_t \<Rightarrow> linkedlist_copyfunction_t option \<Rightarrow>
   linkedlist_deallocfunction_t option \<Rightarrow> (int \<times> world) option" where
  "linkedlist_initialize w e list isize cp de =
     (if list = NULL \<or> isize = 0 then Some (EINVAL, w)
      else do {
        _ \<leftarrow> lists w list;
        let w1 = log MutexInit w;
        let status = mutex_status e;
        if status \<noteq> 0 then Some (status, w1)
        else Some (LINKEDLIST_SUCCESS,
          w1\<lparr>lists := (lists w1)(list \<mapsto>
            \<lparr>head = NULL, item_size = isize,
             copy = Some (case cp of Some c \<Rightarrow> c | None \<Rightarrow> memcpy),
             dealloc = de\<rparr>)\<rparr>)
      })"

definition linkedlist_initialized :: "world \<Rightarrow> addr \<Rightarrow> bool option" where
  "linkedlist_initialized w list =
     (if list = NULL then Some False
      else do {
        l \<leftarrow> lists w list;
        Some (item_size l \<noteq> 0 \<and> copy l \<noteq> None)
      })"

text \<open>\<^verbatim>\<open>if (list->_dealloc != NULL) list->_dealloc(ptr);\<close>\<close>

definition call_dealloc ::
  "linkedlist_deallocfunction_t option \<Rightarrow> addr \<Rightarrow> world \<Rightarrow> world option" where
  "call_dealloc d p w =
     (case d of None \<Rightarrow> Some w
      | Some f \<Rightarrow> do {
          b \<leftarrow> bufs w p;
          Some (log DeallocCall (w\<lparr>bufs := (bufs w)(p \<mapsto> f b)\<rparr>))
        })"

text \<open>\<^verbatim>\<open>list->_copy(dest, src, list->_item_size)\<close> into a buffer of the store. What the
  hook returns is dropped, as in the source.\<close>

definition call_copy ::
  "linkedlist_copyfunction_t \<Rightarrow> addr \<Rightarrow> bytes \<Rightarrow> size_t \<Rightarrow> world \<Rightarrow> world option" where
  "call_copy c dest src n w =
     do {
       d \<leftarrow> bufs w dest;
       Some (log CopyCall (w\<lparr>bufs := (bufs w)(dest \<mapsto> snd (c d src n))\<rparr>))
     }"

text \<open>The loop of \<^verbatim>\<open>linkedlist_add\<close> that finds the last node:
  \<^verbatim>\<open>while (current->_next != NULL) current = current->_next;\<close>
  In \<^verbatim>\<open>linkedlist_add\<close> the \<^verbatim>\<open>_value\<close> member of the new node is indeterminate between
  \<^verbatim>\<open>item->_next = NULL\<close> and \<^verbatim>\<open>item->_value = malloc(...)\<close>; nothing reads it there, and
  the model holds \<^verbatim>\<open>NULL\<close> in it meanwhile. The copy hook runs before the lock is taken.\<close>

partial_function (option) add_last :: "(addr \<rightharpoonup> ListItem) \<Rightarrow> addr \<Rightarrow> addr option" where
  "add_last h current =
     (case h current of None \<Rightarrow> None
      | Some n \<Rightarrow> if item_next n \<noteq> NULL then add_last h (item_next n) else Some current)"

definition linkedlist_add :: "world \<Rightarrow> env \<Rightarrow> addr \<Rightarrow> bytes option \<Rightarrow> (int \<times> world) option" where
  "linkedlist_add w e list val =
     do {
       ok \<leftarrow> linkedlist_initialized w list;
       if \<not> ok then Some (EINVAL, w)
       else case val of None \<Rightarrow> Some (EINVAL, w)
       | Some src \<Rightarrow> do {
           l \<leftarrow> lists w list;
           let item = malloc w (item_place e);
           if item = NULL then Some (ENOMEM, w)
           else do {
             let w1 = w\<lparr>items := (items w)(item \<mapsto> \<lparr>item_value = NULL, item_next = NULL\<rparr>)\<rparr>;
             let v = malloc w1 (value_place e);
             let w2 = w1\<lparr>items := (items w1)(item \<mapsto> \<lparr>item_value = v, item_next = NULL\<rparr>)\<rparr>;
             if v = NULL then do {
               w3 \<leftarrow> free_item item w2;
               Some (ENOMEM, w3)
             }
             else do {
               let w3 = w2\<lparr>bufs := (bufs w2)(v \<mapsto> fresh_buffer (item_size l) (value_junk e))\<rparr>;
               c \<leftarrow> copy l;
               w4 \<leftarrow> call_copy c v src (item_size l) w3;
               let w5 = log MutexLock w4;
               let status = mutex_status e;
               if status \<noteq> 0 then do {
                 w6 \<leftarrow> call_dealloc (dealloc l) v w5;
                 w7 \<leftarrow> free_value v w6;
                 w8 \<leftarrow> free_item item w7;
                 Some (status, w8)
               }
               else do {
                 w6 \<leftarrow> (if head l = NULL
                        then Some (w5\<lparr>lists := (lists w5)(list \<mapsto> l\<lparr>head := item\<rparr>)\<rparr>)
                        else do {
                          current \<leftarrow> add_last (items w5) (head l);
                          n \<leftarrow> items w5 current;
                          Some (w5\<lparr>items := (items w5)(current \<mapsto> n\<lparr>item_next := item\<rparr>)\<rparr>)
                        });
                 Some (LINKEDLIST_SUCCESS, log MutexUnlock w6)
               }
             }
           }
         }
     }"

text \<open>
  The counting loop of \<^verbatim>\<open>linkedlist_get\<close> and \<^verbatim>\<open>linkedlist_update\<close>,
  \<^verbatim>\<open>for (unsigned int _ = 0; _ < index; _++) { if (item == NULL) break; item = item->_next; }\<close>,
  and of \<^verbatim>\<open>linkedlist_remove\<close>, which has the same body and the bound \<^verbatim>\<open>index - 1\<close>.
  There the counter is declared \<^verbatim>\<open>int\<close> and compared with an \<^verbatim>\<open>unsigned int\<close>, so it is
  converted to \<^verbatim>\<open>unsigned int\<close> for the comparison; its increment past \<^verbatim>\<open>INT_MAX\<close>, which
  needs a chain of more than \<open>2^31 - 1\<close> nodes, is taken to wrap as two's complement.
\<close>

function walk :: "(addr \<rightharpoonup> ListItem) \<Rightarrow> uint \<Rightarrow> uint \<Rightarrow> addr \<Rightarrow> addr option" where
  "walk h i bound current =
     (if i < bound then
        (if current = NULL then Some current
         else case h current of None \<Rightarrow> None
              | Some n \<Rightarrow> walk h (i + 1) bound (item_next n))
      else Some current)"
  by pat_completeness auto
termination
proof (relation "measure (\<lambda>(h, i, bound, current). unat bound - unat i)")
  show "wf (measure (\<lambda>(h, i, bound, current). unat bound - unat i))"
    by simp
next
  fix h :: "addr \<rightharpoonup> ListItem" and i bound :: uint and current :: addr and n :: ListItem
  assume less: "i < bound"
  then have "unat i < unat bound"
    by (simp add: word_less_nat_alt)
  moreover have "unat bound < 2 ^ LENGTH(32)"
    by (rule unsigned_less)
  ultimately have "unat i + 1 < 2 ^ LENGTH(32)"
    by linarith
  then have "unat i + unat (1 :: uint) < 2 ^ LENGTH(32)"
    by simp
  then have "unat (i + 1) = Suc (unat i)"
    by (simp add: unat_add_lem [THEN iffD1])
  moreover from less have "unat i < unat bound"
    by (simp add: word_less_nat_alt)
  ultimately show "((h, i + 1, bound, item_next n), (h, i, bound, current))
      \<in> measure (\<lambda>(h, i, bound, current). unat bound - unat i)"
    by simp
qed

declare walk.simps [simp del]

text \<open>\<^verbatim>\<open>linkedlist_remove\<close>: the node is unlinked between lock and unlock; the dealloc
  hook and the two \<^verbatim>\<open>free\<close>s run after the unlock.\<close>

definition remove_unlink ::
  "world \<Rightarrow> addr \<Rightarrow> LinkedList \<Rightarrow> uint \<Rightarrow> (int \<times> addr \<times> world) option" where
  "remove_unlink w list l index =
     (if head l = NULL then Some (ERANGE, NULL, w)
      else if index = 0 then do {
        first \<leftarrow> items w (head l);
        Some (LINKEDLIST_SUCCESS, head l,
              w\<lparr>lists := (lists w)(list \<mapsto> l\<lparr>head := item_next first\<rparr>)\<rparr>)
      }
      else do {
        current \<leftarrow> walk (items w) 0 (index - 1) (head l);
        if current = NULL then Some (ERANGE, NULL, w)
        else do {
          c \<leftarrow> items w current;
          if item_next c = NULL then Some (ERANGE, NULL, w)
          else do {
            t \<leftarrow> items w (item_next c);
            Some (LINKEDLIST_SUCCESS, item_next c,
                  w\<lparr>items := (items w)(current \<mapsto> c\<lparr>item_next := item_next t\<rparr>)\<rparr>)
          }
        }
      })"

definition remove_free ::
  "linkedlist_deallocfunction_t option \<Rightarrow> addr \<Rightarrow> world \<Rightarrow> world option" where
  "remove_free d to_be_freed w =
     (if to_be_freed \<noteq> NULL then do {
        t \<leftarrow> items w to_be_freed;
        w1 \<leftarrow> (if item_value t \<noteq> NULL then do {
                 wd \<leftarrow> call_dealloc d (item_value t) w;
                 free_value (item_value t) wd
               }
               else Some w);
        free_item to_be_freed
          (w1\<lparr>items := (items w1)(to_be_freed \<mapsto> t\<lparr>item_value := NULL\<rparr>)\<rparr>)
      }
      else Some w)"

definition linkedlist_remove :: "world \<Rightarrow> env \<Rightarrow> addr \<Rightarrow> uint \<Rightarrow> (int \<times> world) option" where
  "linkedlist_remove w e list index =
     do {
       ok \<leftarrow> linkedlist_initialized w list;
       if \<not> ok then Some (EINVAL, w)
       else do {
         l \<leftarrow> lists w list;
         let w1 = log MutexLock w;
         let status = mutex_status e;
         if status \<noteq> 0 then Some (status, w1)
         else do {
           (status, to_be_freed, w2) \<leftarrow> remove_unlink w1 list l index;
           let w3 = log MutexUnlock w2;
           w4 \<leftarrow> remove_free (dealloc l) to_be_freed w3;
           Some (status, w4)
         }
       }
     }"

definition linkedlist_get ::
  "world \<Rightarrow> env \<Rightarrow> addr \<Rightarrow> uint \<Rightarrow> bytes option \<Rightarrow> (int \<times> bytes option \<times> world) option" where
  "linkedlist_get w e list index buffer =
     do {
       ok \<leftarrow> linkedlist_initialized w list;
       if \<not> ok then Some (EINVAL, buffer, w)
       else case buffer of None \<Rightarrow> Some (EINVAL, buffer, w)
       | Some dest \<Rightarrow> do {
           l \<leftarrow> lists w list;
           let w1 = log MutexLock w;
           let status = mutex_status e;
           if status \<noteq> 0 then Some (status, buffer, w1)
           else do {
             item \<leftarrow> walk (items w1) 0 index (head l);
             if item = NULL then Some (ERANGE, buffer, log MutexUnlock w1)
             else do {
               n \<leftarrow> items w1 item;
               src \<leftarrow> bufs w1 (item_value n);
               c \<leftarrow> copy l;
               Some (LINKEDLIST_SUCCESS, Some (snd (c dest src (item_size l))),
                     log MutexUnlock (log CopyCall w1))
             }
           }
         }
     }"

definition linkedlist_update ::
  "world \<Rightarrow> env \<Rightarrow> addr \<Rightarrow> uint \<Rightarrow> bytes option \<Rightarrow> (int \<times> world) option" where
  "linkedlist_update w e list index val =
     do {
       ok \<leftarrow> linkedlist_initialized w list;
       if \<not> ok then Some (EINVAL, w)
       else case val of None \<Rightarrow> Some (EINVAL, w)
       | Some src \<Rightarrow> do {
           l \<leftarrow> lists w list;
           let w1 = log MutexLock w;
           let status = mutex_status e;
           if status \<noteq> 0 then Some (status, w1)
           else do {
             item \<leftarrow> walk (items w1) 0 index (head l);
             if item = NULL then Some (ERANGE, log MutexUnlock w1)
             else do {
               n \<leftarrow> items w1 item;
               w2 \<leftarrow> call_dealloc (dealloc l) (item_value n) w1;
               c \<leftarrow> copy l;
               w3 \<leftarrow> call_copy c (item_value n) src (item_size l) w2;
               Some (LINKEDLIST_SUCCESS, log MutexUnlock w3)
             }
           }
         }
     }"

text \<open>The counting loop of \<^verbatim>\<open>linkedlist_length\<close>:
  \<^verbatim>\<open>while (current != NULL) { *length_buffer += 1; current = current->_next; }\<close>\<close>

partial_function (option) length_count ::
  "(addr \<rightharpoonup> ListItem) \<Rightarrow> addr \<Rightarrow> size_t \<Rightarrow> size_t option" where
  "length_count h current len =
     (if current \<noteq> NULL then
        (case h current of None \<Rightarrow> None
         | Some n \<Rightarrow> length_count h (item_next n) (len + 1))
      else Some len)"

text \<open>\<^verbatim>\<open>size_t *length_buffer\<close> is \<open>None\<close> when \<^verbatim>\<open>NULL\<close>, otherwise the number it points
  to; it is returned with its value after the call.\<close>

definition linkedlist_length ::
  "world \<Rightarrow> env \<Rightarrow> addr \<Rightarrow> size_t option \<Rightarrow> (int \<times> size_t option \<times> world) option" where
  "linkedlist_length w e list length_buffer =
     do {
       ok \<leftarrow> linkedlist_initialized w list;
       if \<not> ok then Some (EINVAL, length_buffer, w)
       else case length_buffer of None \<Rightarrow> Some (EINVAL, length_buffer, w)
       | Some _ \<Rightarrow> do {
           l \<leftarrow> lists w list;
           let w1 = log MutexLock w;
           let status = mutex_status e;
           if status \<noteq> 0 then Some (status, length_buffer, w1)
           else do {
             len \<leftarrow> length_count (items w1) (head l) 0;
             Some (LINKEDLIST_SUCCESS, Some len, log MutexUnlock w1)
           }
         }
     }"

text \<open>The loop of \<^verbatim>\<open>linkedlist_destroy\<close> that frees every node and its value.\<close>

partial_function (option) destroy_items ::
  "linkedlist_deallocfunction_t option \<Rightarrow> addr \<Rightarrow> world \<Rightarrow> world option" where
  "destroy_items d current w =
     (if current \<noteq> NULL then do {
        to_be_freed \<leftarrow> items w current;
        w1 \<leftarrow> (if item_value to_be_freed \<noteq> NULL then do {
                 wd \<leftarrow> call_dealloc d (item_value to_be_freed) w;
                 free_value (item_value to_be_freed) wd
               }
               else Some w);
        w2 \<leftarrow> free_item current w1;
        destroy_items d (item_next to_be_freed) w2
      }
      else Some w)"

text \<open>\<^verbatim>\<open>linkedlist_destroy\<close> returns nothing and takes no lock.\<close>

definition linkedlist_destroy :: "world \<Rightarrow> addr \<Rightarrow> world option" where
  "linkedlist_destroy w list =
     (if list \<noteq> NULL then do {
        l \<leftarrow> lists w list;
        w1 \<leftarrow> destroy_items (dealloc l) (head l) w;
        let w2 = log MutexDestroy w1;
        Some (w2\<lparr>lists := (lists w2)(list \<mapsto> l\<lparr>head := NULL, copy := None, dealloc := None\<rparr>)\<rparr>)
      }
      else Some w)"

section \<open>The chain of a list and what it holds\<close>

text \<open>
  \<open>chain h p cells\<close>: following \<^verbatim>\<open>_next\<close> from \<open>p\<close> in the node store \<open>h\<close> passes
  exactly the nodes \<open>map fst cells\<close>, in this order, and ends in \<^verbatim>\<open>NULL\<close>; the second
  component of a cell is the node's \<^verbatim>\<open>_value\<close> pointer.
\<close>

fun chain :: "(addr \<rightharpoonup> ListItem) \<Rightarrow> addr \<Rightarrow> (addr \<times> addr) list \<Rightarrow> bool" where
  "chain h p [] = (p = NULL)"
| "chain h p (cell # cells) =
     (p = fst cell \<and> p \<noteq> NULL \<and>
      (case h p of None \<Rightarrow> False
       | Some n \<Rightarrow> item_value n = snd cell \<and> chain h (item_next n) cells))"

text \<open>
  \<open>list_rep w list cells vs\<close>: the struct at \<open>list\<close> heads a chain of the nodes
  \<open>cells\<close>, no node and no value buffer occurs twice, and the value buffers hold
  \<open>vs\<close>, in this order. This is what \<^verbatim>\<open>linkedlist_initialize\<close> establishes (with no
  cells) and every operation keeps, whatever it returns.
\<close>

definition list_rep :: "world \<Rightarrow> addr \<Rightarrow> (addr \<times> addr) list \<Rightarrow> bytes list \<Rightarrow> bool" where
  "list_rep w list cells vs \<longleftrightarrow>
     list \<noteq> NULL \<and>
     (case lists w list of None \<Rightarrow> False | Some l \<Rightarrow> chain (items w) (head l) cells) \<and>
     distinct (map fst cells) \<and> distinct (map snd cells) \<and>
     NULL \<notin> set (map snd cells) \<and>
     map (\<lambda>cell. bufs w (snd cell)) cells = map Some vs"

text \<open>\<open>unchanged w w'\<close>: the memory of \<open>w'\<close> is that of \<open>w\<close>; only the record of calls
  may differ.\<close>

definition unchanged :: "world \<Rightarrow> world \<Rightarrow> bool" where
  "unchanged w w' \<longleftrightarrow> lists w' = lists w \<and> items w' = items w \<and> bufs w' = bufs w"

text \<open>Both allocations of \<^verbatim>\<open>linkedlist_add\<close> succeed: the two places are free and differ.\<close>

definition add_can_allocate :: "world \<Rightarrow> env \<Rightarrow> bool" where
  "add_can_allocate w e \<longleftrightarrow>
     malloc w (item_place e) \<noteq> NULL \<and> malloc w (value_place e) \<noteq> NULL \<and>
     value_place e \<noteq> item_place e"

text \<open>What \<^verbatim>\<open>if (list->_dealloc != NULL) list->_dealloc(ptr)\<close> leaves in the buffer, and
  the calls it makes.\<close>

definition dealloc_result :: "linkedlist_deallocfunction_t option \<Rightarrow> bytes \<Rightarrow> bytes" where
  "dealloc_result d b = (case d of None \<Rightarrow> b | Some f \<Rightarrow> f b)"

definition dealloc_events :: "linkedlist_deallocfunction_t option \<Rightarrow> event list" where
  "dealloc_events d = (case d of None \<Rightarrow> [] | Some f \<Rightarrow> [DeallocCall])"

section \<open>Sequences of calls\<close>

text \<open>A caller that issues calls on one list, one after the other, each with what the
  environment hands to it.\<close>

datatype call =
    Add env "bytes option"
  | Remove env uint
  | Get env uint "bytes option"
  | Update env uint "bytes option"
  | Length env "size_t option"

fun perform :: "world \<Rightarrow> addr \<Rightarrow> call \<Rightarrow> (int \<times> world) option" where
  "perform w list (Add e val) = linkedlist_add w e list val"
| "perform w list (Remove e index) = linkedlist_remove w e list index"
| "perform w list (Get e index buffer) =
     do { (status, out, w') \<leftarrow> linkedlist_get w e list index buffer; Some (status, w') }"
| "perform w list (Update e index val) = linkedlist_update w e list index val"
| "perform w list (Length e length_buffer) =
     do { (status, out, w') \<leftarrow> linkedlist_length w e list length_buffer; Some (status, w') }"

fun run :: "world \<Rightarrow> addr \<Rightarrow> call list \<Rightarrow> (int list \<times> world) option" where
  "run w list [] = Some ([], w)"
| "run w list (c # cs) =
     do {
       (status, w1) \<leftarrow> perform w list c;
       (statuses, w2) \<leftarrow> run w1 list cs;
       Some (status # statuses, w2)
     }"

fun is_add :: "call \<Rightarrow> bool" where
  "is_add (Add e val) = True"
| "is_add c = False"

fun is_remove :: "call \<Rightarrow> bool" where
  "is_remove (Remove e index) = True"
| "is_remove c = False"

text \<open>How many calls of one kind returned \<^verbatim>\<open>LINKEDLIST_SUCCESS\<close>.\<close>

fun successes :: "(call \<Rightarrow> bool) \<Rightarrow> call list \<Rightarrow> int list \<Rightarrow> nat" where
  "successes kind (c # cs) (status # statuses) =
     (if kind c \<and> status = LINKEDLIST_SUCCESS then 1 else 0) + successes kind cs statuses"
| "successes kind cs statuses = 0"

section \<open>Example states\<close>

text \<open>A list of 4-byte integers with the default hooks, as \<^verbatim>\<open>linkedlist_initialize(&list,
  sizeof(int), NULL, NULL)\<close> leaves it, and the same list holding 42 and 69.\<close>

definition empty_world :: world where
  "empty_world =
     \<lparr>lists = [1 \<mapsto> \<lparr>head = NULL, item_size = 4, copy = Some memcpy, dealloc = None\<rparr>],
      items = Map.empty, bufs = Map.empty, trace = []\<rparr>"

definition two_world :: world where
  "two_world =
     \<lparr>lists = [1 \<mapsto> \<lparr>head = 16, item_size = 4, copy = Some memcpy, dealloc = None\<rparr>],
      items = [16 \<mapsto> \<lparr>item_value = 32, item_next = 48\<rparr>,
               48 \<mapsto> \<lparr>item_value = 64, item_next = NULL\<rparr>],
      bufs = [32 \<mapsto> [42, 0, 0, 0], 64 \<mapsto> [69, 0, 0, 0]],
      trace = []\<rparr>"

text \<open>The first list after \<^verbatim>\<open>linkedlist_destroy\<close>.\<close>

definition destroyed_world :: world where
  "destroyed_world =
     \<lparr>lists = [1 \<mapsto> \<lparr>head = NULL, item_size = 4, copy = None, dealloc = None\<rparr>],
      items = Map.empty, bufs = Map.empty, trace = [MutexDestroy]\<rparr>"

text \<open>An environment in which the mutex works and \<^verbatim>\<open>malloc\<close> has room.\<close>

definition good_env :: env where
  "good_env = \<lparr>mutex_status = 0, item_place = 80, value_place = 96, value_junk = [0, 0, 0, 0]\<rparr>"



text \<open>A struct that was never initialized, and the scenario of the specification:
  initialize a list of 4-byte integers; add 42 and 69; length; get(1); update(1, 1234);
  get(1); remove(0); length; get(0); destroy; and one more add. It yields the statuses,
  the lengths and the values read.\<close>

definition raw_world :: world where
  "raw_world =
     \<lparr>lists = [1 \<mapsto> \<lparr>head = 99, item_size = 0, copy = None, dealloc = None\<rparr>],
      items = Map.empty, bufs = Map.empty, trace = []\<rparr>"

definition scenario :: "(int list \<times> size_t option list \<times> bytes option list) option" where
  "scenario =
     do {
       (s0, w0) \<leftarrow> linkedlist_initialize raw_world good_env 1 4 None None;
       (s1, w1) \<leftarrow> linkedlist_add w0 (good_env\<lparr>item_place := 16, value_place := 32\<rparr>) 1
                    (Some [42, 0, 0, 0]);
       (s2, w2) \<leftarrow> linkedlist_add w1 (good_env\<lparr>item_place := 48, value_place := 64\<rparr>) 1
                    (Some [69, 0, 0, 0]);
       (s3, n3, w3) \<leftarrow> linkedlist_length w2 good_env 1 (Some 0);
       (s4, b4, w4) \<leftarrow> linkedlist_get w3 good_env 1 1 (Some [0, 0, 0, 0]);
       (s5, w5) \<leftarrow> linkedlist_update w4 good_env 1 1 (Some [210, 4, 0, 0]);
       (s6, b6, w6) \<leftarrow> linkedlist_get w5 good_env 1 1 (Some [0, 0, 0, 0]);
       (s7, w7) \<leftarrow> linkedlist_remove w6 good_env 1 0;
       (s8, n8, w8) \<leftarrow> linkedlist_length w7 good_env 1 (Some 0);
       (s9, b9, w9) \<leftarrow> linkedlist_get w8 good_env 1 0 (Some [0, 0, 0, 0]);
       w10 \<leftarrow> linkedlist_destroy w9 1;
       (s11, w11) \<leftarrow> linkedlist_add w10 good_env 1 (Some [1, 0, 0, 0]);
       Some ([s0, s1, s2, s3, s4, s5, s6, s7, s8, s9, s11], [n3, n8], [b4, b6, b9])
     }"

section \<open>Properties of the operations\<close>

subsection \<open>Chains\<close>

lemma chain_NULL: "chain h NULL cells \<longleftrightarrow> cells = []"
  by (cases cells) auto

lemma chain_frame:
  "a \<notin> set (map fst cells) \<Longrightarrow> chain (h(a := x)) p cells = chain h p cells"
  by (induction cells arbitrary: p) (auto split: option.splits)

lemma chain_fst_not_NULL: "chain h p cells \<Longrightarrow> NULL \<notin> set (map fst cells)"
  by (induction cells arbitrary: p) (auto split: option.splits)

lemma chain_cases:
  assumes "chain h p cells" "p \<noteq> NULL"
  obtains n rest where "cells = (p, item_value n) # rest" "h p = Some n" "chain h (item_next n) rest"
  using assms by (cases cells) (auto split: option.splits)

subsection \<open>The loops on a chain\<close>

lemma walk_chain:
  "chain h p cells \<Longrightarrow>
   \<exists>q. walk h i bound p = Some q \<and> chain h q (drop (unat bound - unat i) cells)"
proof (induction h i bound p arbitrary: cells rule: walk.induct)
  case (1 h i bound current)
  show ?case
  proof (cases "i < bound")
    case False
    then have "unat bound - unat i = 0"
      by (simp add: word_less_nat_alt)
    with False 1 show ?thesis by (simp add: walk.simps)
  next
    case less: True
    show ?thesis
    proof (cases "current = NULL")
      case True
      with 1 less show ?thesis by (simp add: chain_NULL walk.simps [of h i])
    next
      case False
      with "1.prems" obtain n rest where
        c: "cells = (current, item_value n) # rest" "h current = Some n"
           "chain h (item_next n) rest"
        by (rule chain_cases)
      from less have u: "unat i < unat bound" by (simp add: word_less_nat_alt)
      moreover have "unat bound < 2 ^ LENGTH(32)" by (rule unsigned_less)
      ultimately have "unat i + 1 < 2 ^ LENGTH(32)" by linarith
      then have "unat i + unat (1 :: uint) < 2 ^ LENGTH(32)" by simp
      then have s: "unat (i + 1) = Suc (unat i)"
        by (simp add: unat_add_lem [THEN iffD1])
      from "1.IH" [OF less False c(2) c(3)] obtain q where
        q: "walk h (i + 1) bound (item_next n) = Some q"
           "chain h q (drop (unat bound - unat (i + 1)) rest)"
        by blast
      from u s have "drop (unat bound - unat i) cells = drop (unat bound - unat (i + 1)) rest"
        by (simp add: c(1) drop_Cons')
      with q less False c(2) show ?thesis by (simp add: walk.simps [of h i])
    qed
  qed
qed

lemma add_last_chain:
  "chain h p cells \<Longrightarrow> cells \<noteq> [] \<Longrightarrow> add_last h p = Some (fst (last cells))"
proof (induction cells arbitrary: p)
  case Nil
  then show ?case by simp
next
  case (Cons cell cells)
  then obtain n where n: "h p = Some n" "p = fst cell" "chain h (item_next n) cells"
    by (auto split: option.splits)
  show ?case
  proof (cases "cells = []")
    case True
    with n show ?thesis
      by (subst add_last.simps) simp
  next
    case False
    with n(3) have "item_next n \<noteq> NULL" by (auto simp: chain_NULL)
    with n False Cons.IH [OF n(3) False] show ?thesis
      by (subst add_last.simps) simp
  qed
qed

lemma length_count_chain:
  "chain h p cells \<Longrightarrow> length_count h p len = Some (len + of_nat (length cells))"
proof (induction cells arbitrary: p len)
  case Nil
  then show ?case by (subst length_count.simps) simp
next
  case (Cons cell cells)
  then obtain n where n: "h p = Some n" "p \<noteq> NULL" "chain h (item_next n) cells"
    by (auto split: option.splits)
  with Cons.IH [OF n(3), of "len + 1"] show ?case
    by (subst length_count.simps) (simp add: add.assoc)
qed

lemma distinct_addrs_length:
  fixes as :: "addr list"
  assumes "distinct as" "NULL \<notin> set as"
  shows "length as < 2 ^ 64"
proof -
  have "set as \<subseteq> UNIV - {NULL}" using assms(2) by auto
  then have "card (set as) \<le> card (UNIV - {NULL} :: addr set)"
    by (intro card_mono) auto
  also have "\<dots> = 2 ^ 64 - 1"
    by (simp add: card_Diff_singleton card_word)
  finally show ?thesis using assms(1) by (simp add: distinct_card)
qed

subsection \<open>Adding a node\<close>

lemma chain_allocated:
  "chain h p cells \<Longrightarrow> a \<in> set (map fst cells) \<Longrightarrow> h a \<noteq> None"
  by (induction cells arbitrary: p) (auto split: option.splits)

lemma bufs_allocated:
  "map (\<lambda>cell. b (snd cell)) cells = map Some vs \<Longrightarrow> a \<in> set (map snd cells) \<Longrightarrow> b a \<noteq> None"
  by (induction cells arbitrary: vs) auto

lemma chain_snoc:
  assumes "chain h p cells" "cells \<noteq> []" "distinct (map fst cells)"
    "item \<notin> set (map fst cells)" "item \<noteq> NULL"
    "h item = Some \<lparr>item_value = v, item_next = NULL\<rparr>"
    "h (fst (last cells)) = Some n"
  shows "chain (h(fst (last cells) \<mapsto> n\<lparr>item_next := item\<rparr>)) p (cells @ [(item, v)])"
  using assms
proof (induction cells arbitrary: p)
  case Nil
  then show ?case by simp
next
  case (Cons cell cells)
  from Cons.prems(1) obtain m where m: "p = fst cell" "p \<noteq> NULL" "h p = Some m"
    "item_value m = snd cell" "chain h (item_next m) cells"
    by (auto split: option.splits)
  show ?case
  proof (cases "cells = []")
    case True
    with m Cons.prems show ?thesis by (auto simp: chain_NULL)
  next
    case False
    then have "fst (last cells) \<in> set (map fst cells)" by simp
    moreover from Cons.prems(3) m(1) have "p \<notin> set (map fst cells)" by simp
    ultimately have ne: "fst (last cells) \<noteq> p" by metis
    from False have l: "last (cell # cells) = last cells" by simp
    from Cons.prems False have
      "chain (h(fst (last cells) \<mapsto> n\<lparr>item_next := item\<rparr>)) (item_next m) (cells @ [(item, v)])"
      by (intro Cons.IH m(5)) auto
    with m ne show ?thesis unfolding l by (simp add: fun_upd_def)
  qed
qed

lemma list_repD:
  assumes "list_rep w list cells vs"
  obtains l where "list \<noteq> NULL" "lists w list = Some l" "chain (items w) (head l) cells"
    "distinct (map fst cells)" "distinct (map snd cells)" "NULL \<notin> set (map snd cells)"
    "map (\<lambda>cell. bufs w (snd cell)) cells = map Some vs"
  using assms unfolding list_rep_def by (auto split: option.splits)

lemma list_rep_length: "list_rep w list cells vs \<Longrightarrow> length vs = length cells"
  unfolding list_rep_def by (auto dest: arg_cong [where f = length])

lemma bufs_frame:
  "a \<notin> set (map snd cells) \<Longrightarrow>
   map (\<lambda>cell. (b(a := y)) (snd cell)) cells = map (\<lambda>cell. b (snd cell)) cells"
  by (induction cells) auto

lemma initializedD:
  assumes "linkedlist_initialized w list = Some True"
  obtains l c where "list \<noteq> NULL" "lists w list = Some l" "item_size l \<noteq> 0" "copy l = Some c"
  using assms unfolding linkedlist_initialized_def
  by (auto split: if_splits Option.bind_splits)

lemma add_no_memory:
  assumes "linkedlist_initialized w list = Some True" "\<not> add_can_allocate w e"
  shows "linkedlist_add w e list (Some v) = Some (ENOMEM, w)"
proof -
  from assms(1) obtain l c where l: "list \<noteq> NULL" "lists w list = Some l" "copy l = Some c"
    by (rule initializedD)
  show ?thesis
  proof (cases "malloc w (item_place e) = NULL")
    case True
    with assms(1) l show ?thesis
      by (simp add: linkedlist_add_def)
  next
    case False
    then have i: "malloc w (item_place e) = item_place e" "item_place e \<noteq> NULL" "items w (item_place e) = None"
      by (auto simp: malloc_def split: if_splits)
    with False assms(2) have
      "malloc (w\<lparr>items := (items w)(item_place e \<mapsto> \<lparr>item_value = NULL, item_next = NULL\<rparr>)\<rparr>) (value_place e) = NULL"
      by (auto simp: add_can_allocate_def malloc_def split: if_splits)
    with assms(1) l i show ?thesis
      by (simp add: linkedlist_add_def free_item_def Let_def fun_upd_idem)
  qed
qed


lemma add_can_allocateD:
  assumes "add_can_allocate w e"
  shows "malloc w (item_place e) = item_place e" "item_place e \<noteq> NULL"
    "items w (item_place e) = None" "bufs w (item_place e) = None" "lists w (item_place e) = None"
    "malloc (w\<lparr>items := (items w)(item_place e \<mapsto> x)\<rparr>) (value_place e) = value_place e"
    "value_place e \<noteq> NULL" "items w (value_place e) = None" "bufs w (value_place e) = None"
    "lists w (value_place e) = None" "value_place e \<noteq> item_place e"
  using assms by (auto simp: add_can_allocate_def malloc_def split: if_splits)

lemma add_lock_failure:
  assumes "linkedlist_initialized w list = Some True" "add_can_allocate w e" "mutex_status e \<noteq> 0"
  shows "\<exists>w'. linkedlist_add w e list (Some v) = Some (mutex_status e, w') \<and> unchanged w w'"
proof -
  from assms(1) obtain l c where l: "list \<noteq> NULL" "lists w list = Some l" "copy l = Some c"
    by (rule initializedD)
  note a = add_can_allocateD [OF assms(2)]
  show ?thesis
  proof (cases "dealloc l")
    case None
    with assms(1,3) l a show ?thesis
      by (simp add: linkedlist_add_def Let_def call_copy_def call_dealloc_def log_def
          free_value_def free_item_def unchanged_def fun_upd_idem)
  next
    case (Some d)
    with assms(1,3) l a show ?thesis
      by (simp add: linkedlist_add_def Let_def call_copy_def call_dealloc_def log_def
          free_value_def free_item_def unchanged_def fun_upd_idem)
  qed
qed

lemma add_links:
  assumes init: "linkedlist_initialized w list = Some True"
    and l: "lists w list = Some l" and c: "copy l = Some c"
    and alloc: "add_can_allocate w e" and lock: "mutex_status e = 0"
    and w5: "w5 = w\<lparr>items := (items w)(item_place e \<mapsto> \<lparr>item_value = value_place e, item_next = NULL\<rparr>),
      bufs := (bufs w)(value_place e \<mapsto>
        snd (c (fresh_buffer (item_size l) (value_junk e)) v (item_size l))),
      trace := trace w @ [CopyCall, MutexLock]\<rparr>"
  shows "linkedlist_add w e list (Some v) =
      do {
        w6 \<leftarrow> (if head l = NULL
               then Some (w5\<lparr>lists := (lists w5)(list \<mapsto> l\<lparr>head := item_place e\<rparr>)\<rparr>)
               else do {
                 current \<leftarrow> add_last (items w5) (head l);
                 n \<leftarrow> items w5 current;
                 Some (w5\<lparr>items := (items w5)(current \<mapsto> n\<lparr>item_next := item_place e\<rparr>)\<rparr>)
               });
        Some (LINKEDLIST_SUCCESS, log MutexUnlock w6)
      }"
  using init l c lock add_can_allocateD [OF alloc]
  by (simp add: linkedlist_add_def Let_def call_copy_def log_def w5)

lemma add_success:
  assumes rep: "list_rep w list cells vs"
    and init: "linkedlist_initialized w list = Some True"
    and l: "lists w list = Some l" and c: "copy l = Some c"
    and alloc: "add_can_allocate w e" and lock: "mutex_status e = 0"
  shows "\<exists>w'. linkedlist_add w e list (Some v) = Some (LINKEDLIST_SUCCESS, w') \<and>
      list_rep w' list (cells @ [(item_place e, value_place e)])
        (vs @ [snd (c (fresh_buffer (item_size l) (value_junk e)) v (item_size l))]) \<and>
      trace w' = trace w @ [CopyCall, MutexLock, MutexUnlock] \<and>
      lists w' = (lists w)(list \<mapsto> l\<lparr>head := (if cells = [] then item_place e else head l)\<rparr>)"
proof -
  note a = add_can_allocateD [OF alloc]
  define stored where "stored = snd (c (fresh_buffer (item_size l) (value_junk e)) v (item_size l))"
  define item where "item = item_place e"
  define val where "val = value_place e"
  define w5 where "w5 = w\<lparr>items := (items w)(item \<mapsto> \<lparr>item_value = val, item_next = NULL\<rparr>),
    bufs := (bufs w)(val \<mapsto> stored), trace := trace w @ [CopyCall, MutexLock]\<rparr>"
  from rep l have r: "list \<noteq> NULL" "chain (items w) (head l) cells"
    "distinct (map fst cells)" "distinct (map snd cells)" "NULL \<notin> set (map snd cells)"
    "map (\<lambda>cell. bufs w (snd cell)) cells = map Some vs"
    unfolding list_rep_def by simp_all
  have add: "linkedlist_add w e list (Some v) =
      do {
        w6 \<leftarrow> (if head l = NULL
               then Some (w5\<lparr>lists := (lists w5)(list \<mapsto> l\<lparr>head := item\<rparr>)\<rparr>)
               else do {
                 current \<leftarrow> add_last (items w5) (head l);
                 n \<leftarrow> items w5 current;
                 Some (w5\<lparr>items := (items w5)(current \<mapsto> n\<lparr>item_next := item\<rparr>)\<rparr>)
               });
        Some (LINKEDLIST_SUCCESS, log MutexUnlock w6)
      }"
    unfolding item_def
    by (rule add_links [OF init l c alloc lock]) (simp add: w5_def stored_def item_def val_def)
  from r(2) a(3) have item_new: "item \<notin> set (map fst cells)"
    unfolding item_def by (metis chain_allocated)
  from r(6) a(9) have val_new: "val \<notin> set (map snd cells)"
    unfolding val_def by (metis bufs_allocated)
  have ch5: "chain (items w5) (head l) cells"
    using r(2) item_new by (simp add: w5_def chain_frame)
  have bufs5: "map (\<lambda>cell. bufs w5 (snd cell)) (cells @ [(item, val)]) = map Some (vs @ [stored])"
    using r(6) bufs_frame [OF val_new, of "bufs w" "Some stored"] by (simp add: w5_def)
  have dist: "distinct (map fst (cells @ [(item, val)]))" "distinct (map snd (cells @ [(item, val)]))"
    "NULL \<notin> set (map snd (cells @ [(item, val)]))"
    using r(3,4,5) item_new val_new a(7) by (auto simp: val_def)
  show ?thesis
  proof (cases "cells = []")
    case True
    with r(2) have h: "head l = NULL" by simp
    have "items w5 item = Some \<lparr>item_value = val, item_next = NULL\<rparr>"
      by (simp add: w5_def)
    with True h add r(1) a(2,7) bufs5 show ?thesis
      by (simp add: list_rep_def log_def w5_def stored_def item_def val_def)
  next
    case False
    with r(2) have h: "head l \<noteq> NULL" by (auto simp: chain_NULL)
    from ch5 False have last: "add_last (items w5) (head l) = Some (fst (last cells))"
      by (rule add_last_chain)
    from False have "fst (last cells) \<in> set (map fst cells)" by simp
    with ch5 obtain n where n: "items w5 (fst (last cells)) = Some n"
      by (metis chain_allocated not_None_eq)
    have i5: "items w5 item = Some \<lparr>item_value = val, item_next = NULL\<rparr>"
      by (simp add: w5_def)
    from a(2) have "item \<noteq> NULL" by (simp add: item_def)
    with ch5 False r(3) item_new i5 n
    have "chain ((items w5)(fst (last cells) \<mapsto> n\<lparr>item_next := item\<rparr>)) (head l)
        (cells @ [(item, val)])"
      by (intro chain_snoc)
    with bufs5 have "list_rep (log MutexUnlock (w5\<lparr>items := (items w5)(fst (last cells) \<mapsto> n\<lparr>item_next := item\<rparr>)\<rparr>))
        list (cells @ [(item, val)]) (vs @ [stored])"
      using dist r(1) l unfolding list_rep_def by (simp add: log_def w5_def)
    with add h last n False l show ?thesis
      by (simp add: log_def w5_def stored_def item_def val_def fun_upd_idem)
  qed
qed

subsection \<open>Reading and overwriting a value\<close>

lemma chain_nth:
  "chain h p cells \<Longrightarrow> k < length cells \<Longrightarrow>
   \<exists>n. h (fst (cells ! k)) = Some n \<and> item_value n = snd (cells ! k) \<and>
       fst (cells ! k) \<noteq> NULL \<and> chain h (item_next n) (drop (Suc k) cells)"
proof (induction cells arbitrary: p k)
  case Nil
  then show ?case by simp
next
  case (Cons cell cells)
  then obtain m where m: "p = fst cell" "p \<noteq> NULL" "h p = Some m"
    "item_value m = snd cell" "chain h (item_next m) cells"
    by (auto split: option.splits)
  show ?case
  proof (cases k)
    case 0
    with m show ?thesis by simp
  next
    case (Suc j)
    with Cons.prems(2) have "j < length cells" by simp
    from Cons.IH [OF m(5) this] Suc show ?thesis by simp
  qed
qed

lemma walk_rep:
  assumes "chain h p cells"
  shows "walk h 0 index p =
    Some (if unat index < length cells then fst (cells ! unat index) else NULL)"
proof -
  from walk_chain [OF assms, of 0 index] obtain q where
    q: "walk h 0 index p = Some q" "chain h q (drop (unat index) cells)"
    by auto
  show ?thesis
  proof (cases "unat index < length cells")
    case True
    then have "drop (unat index) cells = cells ! unat index # drop (Suc (unat index)) cells"
      by (simp add: Cons_nth_drop_Suc)
    with q True show ?thesis by simp
  next
    case False
    with q show ?thesis by simp
  qed
qed

lemma bufs_nth:
  "map (\<lambda>cell. b (snd cell)) cells = map Some vs \<Longrightarrow> k < length cells \<Longrightarrow>
   b (snd (cells ! k)) = Some (vs ! k)"
  by (metis length_map nth_map)

lemma bufs_update:
  assumes "distinct (map snd cells)" "k < length cells"
    "map (\<lambda>cell. b (snd cell)) cells = map Some vs"
  shows "map (\<lambda>cell. (b(snd (cells ! k) \<mapsto> x)) (snd cell)) cells = map Some (vs[k := x])"
proof (rule nth_equalityI)
  from assms(3) have len: "length vs = length cells"
    by (metis length_map)
  then show "length (map (\<lambda>cell. (b(snd (cells ! k) \<mapsto> x)) (snd cell)) cells) =
      length (map Some (vs[k := x]))"
    by simp
  fix i
  assume "i < length (map (\<lambda>cell. (b(snd (cells ! k) \<mapsto> x)) (snd cell)) cells)"
  then have i: "i < length cells" by simp
  show "map (\<lambda>cell. (b(snd (cells ! k) \<mapsto> x)) (snd cell)) cells ! i = map Some (vs[k := x]) ! i"
  proof (cases "i = k")
    case True
    with i len show ?thesis by simp
  next
    case False
    with assms(1,2) i nth_eq_iff_index_eq [of "map snd cells" i k]
    have "snd (cells ! i) \<noteq> snd (cells ! k)"
      by simp
    moreover from assms(3) i have "b (snd (cells ! i)) = Some (vs ! i)"
      by (rule bufs_nth)
    ultimately show ?thesis using i len False by simp
  qed
qed

lemma get_result:
  assumes rep: "list_rep w list cells vs"
    and init: "linkedlist_initialized w list = Some True"
    and l: "lists w list = Some l" and c: "copy l = Some c"
    and lock: "mutex_status e = 0"
  shows "linkedlist_get w e list index (Some dest) =
    Some (if unat index < length vs
          then (LINKEDLIST_SUCCESS, Some (snd (c dest (vs ! unat index) (item_size l))),
                w\<lparr>trace := trace w @ [MutexLock, CopyCall, MutexUnlock]\<rparr>)
          else (ERANGE, Some dest, w\<lparr>trace := trace w @ [MutexLock, MutexUnlock]\<rparr>))"
proof -
  from rep l have r: "chain (items w) (head l) cells"
    "map (\<lambda>cell. bufs w (snd cell)) cells = map Some vs"
    unfolding list_rep_def by simp_all
  from rep have len: "length vs = length cells" by (rule list_rep_length)
  note wk = walk_rep [OF r(1), of index]
  show ?thesis
  proof (cases "unat index < length cells")
    case True
    from chain_nth [OF r(1) True] obtain n where
      n: "items w (fst (cells ! unat index)) = Some n" "item_value n = snd (cells ! unat index)"
         "fst (cells ! unat index) \<noteq> NULL"
      by blast
    from r(2) True have "bufs w (snd (cells ! unat index)) = Some (vs ! unat index)"
      by (rule bufs_nth)
    with True n wk init l c lock len show ?thesis
      by (simp add: linkedlist_get_def log_def Let_def)
  next
    case False
    with wk init l c lock len show ?thesis
      by (simp add: linkedlist_get_def log_def Let_def)
  qed
qed

lemma call_dealloc_result:
  "bufs w p = Some b \<Longrightarrow>
   call_dealloc d p w = Some (w\<lparr>bufs := (bufs w)(p \<mapsto> dealloc_result d b),
     trace := trace w @ dealloc_events d\<rparr>)"
  by (cases d) (simp_all add: call_dealloc_def dealloc_result_def dealloc_events_def log_def
      map_upd_triv)

lemma update_result:
  assumes rep: "list_rep w list cells vs"
    and init: "linkedlist_initialized w list = Some True"
    and l: "lists w list = Some l" and c: "copy l = Some c"
    and lock: "mutex_status e = 0"
  shows "linkedlist_update w e list index (Some v) =
    Some (if unat index < length vs
          then (LINKEDLIST_SUCCESS,
                w\<lparr>bufs := (bufs w)(snd (cells ! unat index) \<mapsto>
                     snd (c (dealloc_result (dealloc l) (vs ! unat index)) v (item_size l))),
                  trace := trace w @ [MutexLock] @ dealloc_events (dealloc l) @ [CopyCall, MutexUnlock]\<rparr>)
          else (ERANGE, w\<lparr>trace := trace w @ [MutexLock, MutexUnlock]\<rparr>))"
proof -
  from rep l have r: "chain (items w) (head l) cells"
    "map (\<lambda>cell. bufs w (snd cell)) cells = map Some vs"
    unfolding list_rep_def by simp_all
  from rep have len: "length vs = length cells" by (rule list_rep_length)
  note wk = walk_rep [OF r(1), of index]
  show ?thesis
  proof (cases "unat index < length cells")
    case True
    from chain_nth [OF r(1) True] obtain n where
      n: "items w (fst (cells ! unat index)) = Some n" "item_value n = snd (cells ! unat index)"
         "fst (cells ! unat index) \<noteq> NULL"
      by blast
    from r(2) True have b: "bufs w (snd (cells ! unat index)) = Some (vs ! unat index)"
      by (rule bufs_nth)
    then have "bufs (log MutexLock w) (snd (cells ! unat index)) = Some (vs ! unat index)"
      by (simp add: log_def)
    note d = call_dealloc_result [OF this, of "dealloc l"]
    from True n wk init l c lock len d show ?thesis
      by (simp add: linkedlist_update_def call_copy_def log_def Let_def)
  next
    case False
    with wk init l c lock len show ?thesis
      by (simp add: linkedlist_update_def log_def Let_def)
  qed
qed

lemma list_repI:
  assumes "list \<noteq> NULL" "lists w list = Some l" "chain (items w) (head l) cells"
    "distinct (map fst cells)" "distinct (map snd cells)" "NULL \<notin> set (map snd cells)"
    "map (\<lambda>cell. bufs w (snd cell)) cells = map Some vs"
  shows "list_rep w list cells vs"
  using assms unfolding list_rep_def by simp

lemma update_rep:
  assumes "list_rep w list cells vs" "k < length vs"
  shows "list_rep (w\<lparr>bufs := (bufs w)(snd (cells ! k) \<mapsto> x), trace := t\<rparr>) list cells (vs[k := x])"
proof -
  let ?w = "w\<lparr>bufs := (bufs w)(snd (cells ! k) \<mapsto> x), trace := t\<rparr>"
  from assms(1) have len: "length vs = length cells" by (rule list_rep_length)
  from assms(1) obtain l where r: "list \<noteq> NULL" "lists w list = Some l"
    "chain (items w) (head l) cells"
    "distinct (map fst cells)" "distinct (map snd cells)" "NULL \<notin> set (map snd cells)"
    "map (\<lambda>cell. bufs w (snd cell)) cells = map Some vs"
    by (rule list_repD)
  from assms(2) len have "k < length cells" by simp
  from bufs_update [OF r(5) this r(7), of x]
  have "map (\<lambda>cell. bufs ?w (snd cell)) cells = map Some (vs[k := x])"
    by (simp del: fun_upd_apply)
  moreover have "lists ?w list = Some l" "chain (items ?w) (head l) cells"
    using r(2,3) by simp_all
  ultimately show ?thesis using r(1,4,5,6) by (intro list_repI)
qed

subsection \<open>Removing a node\<close>

lemma distinct_remove_nth:
  assumes "distinct (map f xs)" "k < length xs"
  shows "distinct (map f (take k xs @ drop (Suc k) xs))"
    and "f (xs ! k) \<notin> set (map f (take k xs @ drop (Suc k) xs))"
proof -
  from assms(2) have "xs = take k xs @ xs ! k # drop (Suc k) xs"
    by (rule id_take_nth_drop)
  then have "map f xs = map f (take k xs) @ f (xs ! k) # map f (drop (Suc k) xs)"
    by (metis list.simps(9) map_append)
  with assms(1) have d: "distinct (map f (take k xs) @ f (xs ! k) # map f (drop (Suc k) xs))"
    by simp
  from d show "distinct (map f (take k xs @ drop (Suc k) xs))" by auto
  from d show "f (xs ! k) \<notin> set (map f (take k xs @ drop (Suc k) xs))" by auto
qed

lemma chain_unlink:
  assumes "chain h p cells" "distinct (map fst cells)" "Suc j < length cells"
    "h (fst (cells ! j)) = Some c" "h (fst (cells ! Suc j)) = Some t"
  shows "chain (h(fst (cells ! j) \<mapsto> c\<lparr>item_next := item_next t\<rparr>)) p
           (take (Suc j) cells @ drop (Suc (Suc j)) cells)"
  using assms
proof (induction cells arbitrary: p j)
  case Nil
  then show ?case by simp
next
  case (Cons cell cells)
  from Cons.prems(1) obtain m where m: "p = fst cell" "p \<noteq> NULL" "h p = Some m"
    "item_value m = snd cell" "chain h (item_next m) cells"
    by (auto split: option.splits)
  from Cons.prems(2) have notin: "p \<notin> set (map fst cells)" and dist: "distinct (map fst cells)"
    using m(1) by simp_all
  show ?case
  proof (cases j)
    case 0
    with Cons.prems(3) obtain cell2 rest where cells: "cells = cell2 # rest"
      by (cases cells) auto
    with m(5) Cons.prems(5) 0 have t: "item_next m = fst cell2" "chain h (item_next t) rest"
      by (auto split: option.splits)
    from notin cells have "p \<notin> set (map fst rest)" by simp
    with t(2) have "chain (h(p \<mapsto> c\<lparr>item_next := item_next t\<rparr>)) (item_next t) rest"
      by (simp add: chain_frame)
    moreover from Cons.prems(4) 0 m have "c = m" by simp
    ultimately show ?thesis using 0 m cells by (simp add: fun_upd_def)
  next
    case (Suc i)
    with Cons.prems have i: "Suc i < length cells" "h (fst (cells ! i)) = Some c"
      "h (fst (cells ! Suc i)) = Some t"
      by simp_all
    from i(1) have "fst (cells ! i) \<in> set (map fst cells)" by simp
    with notin have ne: "fst (cells ! i) \<noteq> p" by metis
    from Cons.IH [OF m(5) dist i]
    have "chain (h(fst (cells ! i) \<mapsto> c\<lparr>item_next := item_next t\<rparr>)) (item_next m)
        (take (Suc i) cells @ drop (Suc (Suc i)) cells)" .
    with m ne Suc show ?thesis by (simp add: fun_upd_def)
  qed
qed

lemma unlink_out_of_range:
  assumes "chain (items w) (head l) cells" "length cells \<le> unat index"
  shows "remove_unlink w list l index = Some (ERANGE, NULL, w)"
proof (cases "cells = []")
  case True
  with assms(1) show ?thesis by (simp add: remove_unlink_def)
next
  case False
  with assms(1) have h: "head l \<noteq> NULL" by (auto simp: chain_NULL)
  from False have "0 < length cells" by simp
  with assms(2) have "unat index \<noteq> 0" by linarith
  then have nz: "index \<noteq> 0" by (metis unat_0)
  then have u: "unat (index - 1) = unat index - 1" by (rule unat_minus_one)
  note wk = walk_rep [OF assms(1), of "index - 1"]
  show ?thesis
  proof (cases "unat index - 1 < length cells")
    case True
    with assms(2) have k: "Suc (unat index - 1) = length cells" by simp
    from chain_nth [OF assms(1) True] obtain n where
      n: "items w (fst (cells ! (unat index - 1))) = Some n"
         "fst (cells ! (unat index - 1)) \<noteq> NULL"
         "chain (items w) (item_next n) (drop (Suc (unat index - 1)) cells)"
      by blast
    from n(3) k have "item_next n = NULL" by simp
    with True wk u h nz n show ?thesis by (simp add: remove_unlink_def)
  next
    case False
    with wk u h nz show ?thesis by (simp add: remove_unlink_def)
  qed
qed

lemma unlink_in_range:
  assumes "chain (items w) (head l) cells" "distinct (map fst cells)" "unat index < length cells"
    and l: "lists w list = Some l"
  shows "\<exists>w2 h' t. remove_unlink w list l index =
        Some (LINKEDLIST_SUCCESS, fst (cells ! unat index), w2) \<and>
      lists w2 = (lists w)(list \<mapsto> l\<lparr>head := h'\<rparr>) \<and>
      chain (items w2) h' (take (unat index) cells @ drop (Suc (unat index)) cells) \<and>
      items w2 (fst (cells ! unat index)) = Some t \<and> item_value t = snd (cells ! unat index) \<and>
      bufs w2 = bufs w \<and> trace w2 = trace w"
proof -
  from assms(1,3) have h: "head l \<noteq> NULL" by (auto simp: chain_NULL)
  from chain_nth [OF assms(1,3)] obtain t where
    t: "items w (fst (cells ! unat index)) = Some t" "item_value t = snd (cells ! unat index)"
       "fst (cells ! unat index) \<noteq> NULL"
       "chain (items w) (item_next t) (drop (Suc (unat index)) cells)"
    by blast
  show ?thesis
  proof (cases "index = 0")
    case True
    with assms(1,3) have "head l = fst (cells ! 0)"
      by (cases cells) simp_all
    with True t h show ?thesis
      by (auto simp: remove_unlink_def intro!: exI [of _ "item_next t"])
  next
    case False
    then have u: "unat (index - 1) = unat index - 1" by (rule unat_minus_one)
    from False have pos: "0 < unat index" by (simp add: unat_gt_0)
    define j where "j = unat index - 1"
    with pos have k: "unat index = Suc j" by simp
    with assms(3) have j: "j < length cells" "Suc j < length cells" by simp_all
    from walk_rep [OF assms(1), of "index - 1"] u j
    have wk: "walk (items w) 0 (index - 1) (head l) = Some (fst (cells ! j))"
      by (simp add: j_def)
    from chain_nth [OF assms(1) j(1)] obtain c where
      c: "items w (fst (cells ! j)) = Some c" "fst (cells ! j) \<noteq> NULL"
         "chain (items w) (item_next c) (drop (Suc j) cells)"
      by blast
    from j(2) have dr: "drop (Suc j) cells = cells ! Suc j # drop (Suc (Suc j)) cells"
      by (simp add: Cons_nth_drop_Suc)
    from c(3) have nx: "item_next c = fst (cells ! Suc j)" "item_next c \<noteq> NULL"
      unfolding dr chain.simps by blast+
    from assms(2) j nth_eq_iff_index_eq [of "map fst cells" j "Suc j"]
    have ne: "fst (cells ! j) \<noteq> fst (cells ! Suc j)" by simp
    from chain_unlink [OF assms(1,2) j(2) c(1)] t(1) k
    have "chain ((items w)(fst (cells ! j) \<mapsto> c\<lparr>item_next := item_next t\<rparr>)) (head l)
        (take (Suc j) cells @ drop (Suc (Suc j)) cells)"
      by simp
    then show ?thesis
      using False h wk c nx t k ne l
      by (auto simp: remove_unlink_def map_upd_triv intro!: exI [of _ "head l"])
  qed
qed

lemma free_value_after_dealloc:
  assumes "bufs w tv = Some b" "tv \<noteq> NULL"
  shows "call_dealloc d tv w \<bind> free_value tv =
    Some (w\<lparr>bufs := (bufs w)(tv := None), trace := trace w @ dealloc_events d\<rparr>)"
  using assms by (simp add: call_dealloc_result free_value_def)

lemma remove_free_result:
  assumes "items w t = Some n" "t \<noteq> NULL" "item_value n \<noteq> NULL" "bufs w (item_value n) = Some b"
  shows "remove_free d t w =
    Some (w\<lparr>items := (items w)(t := None), bufs := (bufs w)(item_value n := None),
            trace := trace w @ dealloc_events d\<rparr>)"
  using assms free_value_after_dealloc [OF assms(4,3), of d]
  by (simp add: remove_free_def free_item_def)

lemma remove_out_of_range:
  assumes rep: "list_rep w list cells vs"
    and init: "linkedlist_initialized w list = Some True"
    and lock: "mutex_status e = 0"
    and range: "length vs \<le> unat index"
  shows "linkedlist_remove w e list index =
    Some (ERANGE, w\<lparr>trace := trace w @ [MutexLock, MutexUnlock]\<rparr>)"
proof -
  from rep obtain l where l: "lists w list = Some l" "chain (items w) (head l) cells"
    by (rule list_repD)
  from rep have len: "length vs = length cells" by (rule list_rep_length)
  from l(2) have "chain (items (log MutexLock w)) (head l) cells"
    by (simp add: log_def)
  with range len have "remove_unlink (log MutexLock w) list l index =
      Some (ERANGE, NULL, log MutexLock w)"
    by (intro unlink_out_of_range) simp_all
  with init l lock show ?thesis
    by (simp add: linkedlist_remove_def remove_free_def log_def Let_def)
qed

lemma remove_in_range:
  assumes rep: "list_rep w list cells vs"
    and init: "linkedlist_initialized w list = Some True"
    and l: "lists w list = Some l"
    and lock: "mutex_status e = 0"
    and range: "unat index < length vs"
  shows "\<exists>w' h'. linkedlist_remove w e list index = Some (LINKEDLIST_SUCCESS, w') \<and>
      list_rep w' list (take (unat index) cells @ drop (Suc (unat index)) cells)
        (take (unat index) vs @ drop (Suc (unat index)) vs) \<and>
      lists w' = (lists w)(list \<mapsto> l\<lparr>head := h'\<rparr>) \<and>
      trace w' = trace w @ [MutexLock, MutexUnlock] @ dealloc_events (dealloc l)"
proof -
  let ?k = "unat index"
  let ?cells = "take ?k cells @ drop (Suc ?k) cells"
  let ?vs = "take ?k vs @ drop (Suc ?k) vs"
  from rep l have r: "list \<noteq> NULL" "chain (items w) (head l) cells"
    "distinct (map fst cells)" "distinct (map snd cells)" "NULL \<notin> set (map snd cells)"
    "map (\<lambda>cell. bufs w (snd cell)) cells = map Some vs"
    unfolding list_rep_def by simp_all
  from rep have len: "length vs = length cells" by (rule list_rep_length)
  with range have k: "?k < length cells" by simp
  let ?w1 = "log MutexLock w"
  from r(2) have "chain (items ?w1) (head l) cells" by (simp add: log_def)
  moreover from l have "lists ?w1 list = Some l" by (simp add: log_def)
  ultimately obtain w2 h' t where
    u: "remove_unlink ?w1 list l index = Some (LINKEDLIST_SUCCESS, fst (cells ! ?k), w2)"
       "lists w2 = (lists ?w1)(list \<mapsto> l\<lparr>head := h'\<rparr>)"
       "chain (items w2) h' ?cells"
       "items w2 (fst (cells ! ?k)) = Some t" "item_value t = snd (cells ! ?k)"
       "bufs w2 = bufs ?w1" "trace w2 = trace ?w1"
    using unlink_in_range [OF _ r(3) k, of ?w1 l list] by blast
  let ?w3 = "log MutexUnlock w2"
  from chain_nth [OF r(2) k] have nn: "fst (cells ! ?k) \<noteq> NULL" by blast
  from k r(5) have vn: "snd (cells ! ?k) \<noteq> NULL"
    by (metis nth_map nth_mem length_map)
  from r(6) k have b: "bufs w (snd (cells ! ?k)) = Some (vs ! ?k)" by (rule bufs_nth)
  define w4 where "w4 = ?w3\<lparr>items := (items ?w3)(fst (cells ! ?k) := None),
    bufs := (bufs ?w3)(snd (cells ! ?k) := None),
    trace := trace ?w3 @ dealloc_events (dealloc l)\<rparr>"
  have "remove_free (dealloc l) (fst (cells ! ?k)) ?w3 = Some w4"
    using remove_free_result [of ?w3 "fst (cells ! ?k)" t "vs ! ?k" "dealloc l"] u(4,5,6) nn vn b
    by (simp add: log_def w4_def)
  with init l lock u(1) have res: "linkedlist_remove w e list index = Some (LINKEDLIST_SUCCESS, w4)"
    by (simp add: linkedlist_remove_def Let_def)
  have i4: "items w4 = (items w2)(fst (cells ! ?k) := None)"
    and b4: "bufs w4 = (bufs w)(snd (cells ! ?k) := None)"
    and l4: "lists w4 = (lists w)(list \<mapsto> l\<lparr>head := h'\<rparr>)"
    and t4: "trace w4 = trace w @ [MutexLock, MutexUnlock] @ dealloc_events (dealloc l)"
    using u(2,6,7) by (simp_all add: w4_def log_def)
  note d1 = distinct_remove_nth [OF r(3) k] and d2 = distinct_remove_nth [OF r(4) k]
  from u(3) d1(2) have "chain (items w4) (head (l\<lparr>head := h'\<rparr>)) ?cells"
    by (simp add: i4 chain_frame)
  moreover have "map (\<lambda>cell. bufs w4 (snd cell)) ?cells = map Some ?vs"
  proof -
    from r(6) have "map (\<lambda>cell. bufs w (snd cell)) ?cells = map Some ?vs"
      by (simp add: take_map [symmetric] drop_map [symmetric])
    then show ?thesis
      unfolding b4 bufs_frame [OF d2(2), of "bufs w" None] .
  qed
  moreover have "NULL \<notin> set (map snd ?cells)"
    using r(5) by (auto dest: in_set_takeD in_set_dropD)
  moreover have "lists w4 list = Some (l\<lparr>head := h'\<rparr>)" by (simp add: l4)
  ultimately have "list_rep w4 list ?cells ?vs"
    using r(1) d1(1) d2(1) by (intro list_repI)
  with res l4 t4 show ?thesis by blast
qed

subsection \<open>Length, destruction and initialization\<close>

lemma length_result:
  assumes rep: "list_rep w list cells vs"
    and init: "linkedlist_initialized w list = Some True"
    and lock: "mutex_status e = 0"
  shows "linkedlist_length w e list (Some old) =
    Some (LINKEDLIST_SUCCESS, Some (of_nat (length vs)),
          w\<lparr>trace := trace w @ [MutexLock, MutexUnlock]\<rparr>)"
proof -
  from rep obtain l where l: "lists w list = Some l" "chain (items w) (head l) cells"
    by (rule list_repD)
  from rep have len: "length vs = length cells" by (rule list_rep_length)
  from length_count_chain [OF l(2), of 0] init l lock len show ?thesis
    by (simp add: linkedlist_length_def log_def Let_def)
qed

lemma rep_length_bound:
  assumes "list_rep w list cells vs"
  shows "length vs < 2 ^ 64"
proof -
  from assms obtain l :: LinkedList where l: "chain (items w) (head l) cells"
    unfolding list_rep_def by (auto split: option.splits)
  from assms have d: "distinct (map fst cells)"
    unfolding list_rep_def by simp
  from l have "NULL \<notin> set (map fst cells)" by (rule chain_fst_not_NULL)
  with d have "length (map fst cells) < 2 ^ 64" by (rule distinct_addrs_length)
  with list_rep_length [OF assms] show ?thesis by simp
qed

lemma destroy_items_result:
  assumes "chain (items w) p cells" "distinct (map fst cells)" "distinct (map snd cells)"
    "NULL \<notin> set (map snd cells)" "map (\<lambda>cell. bufs w (snd cell)) cells = map Some vs"
  shows "\<exists>w'. destroy_items d p w = Some w' \<and> lists w' = lists w \<and>
      items w' = (\<lambda>a. if a \<in> set (map fst cells) then None else items w a) \<and>
      bufs w' = (\<lambda>a. if a \<in> set (map snd cells) then None else bufs w a) \<and>
      trace w' = trace w @ concat (replicate (length cells) (dealloc_events d))"
  using assms
proof (induction cells arbitrary: w p vs)
  case Nil
  then show ?case by (subst destroy_items.simps) simp
next
  case (Cons cell cells)
  from Cons.prems(1) obtain n where n: "p = fst cell" "p \<noteq> NULL" "items w p = Some n"
    "item_value n = snd cell" "chain (items w) (item_next n) cells"
    by (auto split: option.splits)
  from Cons.prems(5) obtain v vs' where v: "vs = v # vs'" "bufs w (snd cell) = Some v"
    "map (\<lambda>cell. bufs w (snd cell)) cells = map Some vs'"
    by (cases vs) auto
  from Cons.prems(4) have vn: "snd cell \<noteq> NULL" by auto
  define w2 where "w2 = w\<lparr>bufs := (bufs w)(snd cell := None),
    trace := trace w @ dealloc_events d, items := (items w)(p := None)\<rparr>"
  from Cons.prems(2) n(1) have "p \<notin> set (map fst cells)" by simp
  with n(5) have c2: "chain (items w2) (item_next n) cells"
    by (simp add: w2_def chain_frame)
  from Cons.prems(3) have "snd cell \<notin> set (map snd cells)" by simp
  from bufs_frame [OF this, of "bufs w" None] v(3)
  have b2: "map (\<lambda>cell. bufs w2 (snd cell)) cells = map Some vs'"
    by (simp add: w2_def del: fun_upd_apply)
  from Cons.prems(2,3,4) have d: "distinct (map fst cells)" "distinct (map snd cells)"
    "NULL \<notin> set (map snd cells)"
    by auto
  from Cons.IH [OF c2 d b2] obtain w' where
    w': "destroy_items d (item_next n) w2 = Some w'" "lists w' = lists w2"
      "items w' = (\<lambda>a. if a \<in> set (map fst cells) then None else items w2 a)"
      "bufs w' = (\<lambda>a. if a \<in> set (map snd cells) then None else bufs w2 a)"
      "trace w' = trace w2 @ concat (replicate (length cells) (dealloc_events d))"
    by blast
  have "destroy_items d p w = destroy_items d (item_next n) w2"
    using n vn free_value_after_dealloc [OF v(2) vn, of d]
    by (subst destroy_items.simps) (simp add: free_item_def w2_def)
  with w' n(1) show ?case
    by (auto simp: w2_def fun_eq_iff)
qed

lemma destroy_result:
  assumes rep: "list_rep w list cells vs" and l: "lists w list = Some l"
  shows "\<exists>w'. linkedlist_destroy w list = Some w' \<and>
      lists w' = (lists w)(list \<mapsto> l\<lparr>head := NULL, copy := None, dealloc := None\<rparr>) \<and>
      items w' = (\<lambda>a. if a \<in> set (map fst cells) then None else items w a) \<and>
      bufs w' = (\<lambda>a. if a \<in> set (map snd cells) then None else bufs w a)"
proof -
  from rep l have r: "list \<noteq> NULL" "chain (items w) (head l) cells"
    "distinct (map fst cells)" "distinct (map snd cells)" "NULL \<notin> set (map snd cells)"
    "map (\<lambda>cell. bufs w (snd cell)) cells = map Some vs"
    unfolding list_rep_def by simp_all
  from destroy_items_result [OF r(2-6), of "dealloc l"] obtain w1 where
    "destroy_items (dealloc l) (head l) w = Some w1" "lists w1 = lists w"
    "items w1 = (\<lambda>a. if a \<in> set (map fst cells) then None else items w a)"
    "bufs w1 = (\<lambda>a. if a \<in> set (map snd cells) then None else bufs w a)"
    by blast
  with r(1) l show ?thesis
    by (simp add: linkedlist_destroy_def log_def Let_def)
qed

lemma destroy_destroyed:
  assumes "list \<noteq> NULL" "lists w list = Some l" "head l = NULL" "copy l = None" "dealloc l = None"
  shows "linkedlist_destroy w list = Some (w\<lparr>trace := trace w @ [MutexDestroy]\<rparr>)"
proof -
  have "destroy_items None NULL w = Some w"
    by (subst destroy_items.simps) simp
  moreover from assms have "l\<lparr>head := NULL, copy := None, dealloc := None\<rparr> = l" by simp
  ultimately show ?thesis using assms
    by (simp add: linkedlist_destroy_def log_def Let_def map_upd_triv)
qed

lemma initialize_result:
  assumes "list \<noteq> NULL" "isize \<noteq> 0" "lists w list = Some garbage" "mutex_status e = 0"
  shows "\<exists>w'. linkedlist_initialize w e list isize cp de = Some (LINKEDLIST_SUCCESS, w') \<and>
    list_rep w' list [] [] \<and> linkedlist_initialized w' list = Some True \<and>
    lists w' list = Some \<lparr>head = NULL, item_size = isize,
      copy = Some (case cp of Some c \<Rightarrow> c | None \<Rightarrow> memcpy), dealloc = de\<rparr>"
  using assms
  by (simp add: linkedlist_initialize_def linkedlist_initialized_def list_rep_def log_def Let_def)

subsection \<open>Calls that are rejected\<close>

lemma list_rep_unchanged:
  "unchanged w w' \<Longrightarrow> list_rep w' list cells vs = list_rep w list cells vs"
  by (simp add: unchanged_def list_rep_def split: option.splits)

lemma initialized_unchanged:
  "lists w' list = lists w list \<Longrightarrow> linkedlist_initialized w' list = linkedlist_initialized w list"
  by (simp add: linkedlist_initialized_def)

lemma initialized_head:
  assumes "lists w list = Some l" "lists w' = (lists w)(list \<mapsto> l\<lparr>head := h\<rparr>)"
  shows "linkedlist_initialized w' list = linkedlist_initialized w list"
  using assms by (simp add: linkedlist_initialized_def)

lemma not_initialized:
  assumes "linkedlist_initialized w list = Some False"
  shows "linkedlist_add w e list val = Some (EINVAL, w)"
    and "linkedlist_remove w e list index = Some (EINVAL, w)"
    and "linkedlist_get w e list index buffer = Some (EINVAL, buffer, w)"
    and "linkedlist_update w e list index val = Some (EINVAL, w)"
    and "linkedlist_length w e list length_buffer = Some (EINVAL, length_buffer, w)"
  using assms
  by (simp_all add: linkedlist_add_def linkedlist_remove_def linkedlist_get_def
      linkedlist_update_def linkedlist_length_def)

lemma null_argument:
  assumes "linkedlist_initialized w list = Some True"
  shows "linkedlist_add w e list None = Some (EINVAL, w)"
    and "linkedlist_get w e list index None = Some (EINVAL, None, w)"
    and "linkedlist_update w e list index None = Some (EINVAL, w)"
    and "linkedlist_length w e list None = Some (EINVAL, None, w)"
  using assms
  by (simp_all add: linkedlist_add_def linkedlist_get_def linkedlist_update_def
      linkedlist_length_def)

lemma lock_failure:
  assumes "linkedlist_initialized w list = Some True" "mutex_status e \<noteq> 0"
  shows "linkedlist_remove w e list index = Some (mutex_status e, log MutexLock w)"
    and "linkedlist_get w e list index (Some dest) = Some (mutex_status e, Some dest, log MutexLock w)"
    and "linkedlist_update w e list index (Some v) = Some (mutex_status e, log MutexLock w)"
    and "linkedlist_length w e list (Some old) = Some (mutex_status e, Some old, log MutexLock w)"
proof -
  from assms(1) obtain l where "lists w list = Some l" by (rule initializedD)
  with assms show
    "linkedlist_remove w e list index = Some (mutex_status e, log MutexLock w)"
    "linkedlist_get w e list index (Some dest) = Some (mutex_status e, Some dest, log MutexLock w)"
    "linkedlist_update w e list index (Some v) = Some (mutex_status e, log MutexLock w)"
    "linkedlist_length w e list (Some old) = Some (mutex_status e, Some old, log MutexLock w)"
    by (simp_all add: linkedlist_remove_def linkedlist_get_def linkedlist_update_def
        linkedlist_length_def Let_def)
qed

lemma unchanged_log [simp]: "unchanged w (log ev w)" "unchanged w w"
  "unchanged w (w\<lparr>trace := t\<rparr>)"
  by (simp_all add: unchanged_def log_def)

lemma status_distinct [simp]:
  "EINVAL \<noteq> LINKEDLIST_SUCCESS" "ERANGE \<noteq> LINKEDLIST_SUCCESS" "ENOMEM \<noteq> LINKEDLIST_SUCCESS"
  "LINKEDLIST_SUCCESS \<noteq> EINVAL" "LINKEDLIST_SUCCESS \<noteq> ERANGE" "LINKEDLIST_SUCCESS \<noteq> ENOMEM"
  "ERANGE \<noteq> EINVAL" "EINVAL \<noteq> ERANGE"
  by (simp_all add: EINVAL_def ERANGE_def ENOMEM_def LINKEDLIST_SUCCESS_def)

subsection \<open>One call, and a sequence of calls, on a well-formed initialized list\<close>

lemma perform_repI:
  assumes "perform w list c = Some (status, w')" "list_rep w' list cells' vs'"
    "lists w' = (lists w)(list \<mapsto> l\<lparr>head := h\<rparr>)"
    "length vs' + (if is_remove c \<and> status = LINKEDLIST_SUCCESS then 1 else 0) =
     length vs + (if is_add c \<and> status = LINKEDLIST_SUCCESS then 1 else 0)"
  shows "\<exists>status w' cells' vs' h. perform w list c = Some (status, w') \<and>
      list_rep w' list cells' vs' \<and> lists w' = (lists w)(list \<mapsto> l\<lparr>head := h\<rparr>) \<and>
      length vs' + (if is_remove c \<and> status = LINKEDLIST_SUCCESS then 1 else 0) =
      length vs + (if is_add c \<and> status = LINKEDLIST_SUCCESS then 1 else 0)"
  using assms by blast

lemma perform_rep:
  assumes rep: "list_rep w list cells vs"
    and init: "linkedlist_initialized w list = Some True"
    and l: "lists w list = Some l"
  shows "\<exists>status w' cells' vs' h. perform w list c = Some (status, w') \<and>
      list_rep w' list cells' vs' \<and> lists w' = (lists w)(list \<mapsto> l\<lparr>head := h\<rparr>) \<and>
      length vs' + (if is_remove c \<and> status = LINKEDLIST_SUCCESS then 1 else 0) =
      length vs + (if is_add c \<and> status = LINKEDLIST_SUCCESS then 1 else 0)"
proof -
  from init l obtain cp where cp: "copy l = Some cp"
    by (auto elim: initializedD)
  from l have idem: "lists w = (lists w)(list \<mapsto> l\<lparr>head := head l\<rparr>)"
    by (simp add: map_upd_triv)
  have keep: ?thesis
    if k: "perform w list c = Some (status, w')" "unchanged w w'"
      "status \<noteq> LINKEDLIST_SUCCESS \<or> (\<not> is_add c \<and> \<not> is_remove c)" for status w'
  proof -
    from k(2) rep have "list_rep w' list cells vs" by (simp add: list_rep_unchanged)
    moreover from k(2) idem have "lists w' = (lists w)(list \<mapsto> l\<lparr>head := head l\<rparr>)"
      by (simp add: unchanged_def)
    moreover from k(3) have
      "length vs + (if is_remove c \<and> status = LINKEDLIST_SUCCESS then 1 else 0) =
       length vs + (if is_add c \<and> status = LINKEDLIST_SUCCESS then 1 else 0)"
      by auto
    ultimately show ?thesis by (rule perform_repI [OF k(1)])
  qed
  show ?thesis
  proof (cases c)
    case (Add e val)
    show ?thesis
    proof (cases val)
      case None
      with Add null_argument(1) [OF init, of e] have "perform w list c = Some (EINVAL, w)"
        by simp
      then show ?thesis by (rule keep) simp_all
    next
      case (Some v)
      show ?thesis
      proof (cases "add_can_allocate w e")
        case False
        with Add Some add_no_memory [OF init False, of v]
        have "perform w list c = Some (ENOMEM, w)"
          by simp
        then show ?thesis by (rule keep) simp_all
      next
        case alloc: True
        show ?thesis
        proof (cases "mutex_status e = 0")
          case False
          from add_lock_failure [OF init alloc False, of v] obtain w' where
            w': "linkedlist_add w e list (Some v) = Some (mutex_status e, w')" "unchanged w w'"
            by blast
          with Add Some have "perform w list c = Some (mutex_status e, w')" by simp
          then show ?thesis using w'(2)
            by (rule keep) (use False in \<open>simp add: LINKEDLIST_SUCCESS_def\<close>)
        next
          case True
          from add_success [OF rep init l cp alloc True, of v] obtain w' x where
            w': "linkedlist_add w e list (Some v) = Some (LINKEDLIST_SUCCESS, w')"
              "list_rep w' list (cells @ [(item_place e, value_place e)]) (vs @ [x])"
              "lists w' = (lists w)(list \<mapsto> l\<lparr>head := (if cells = [] then item_place e else head l)\<rparr>)"
            by blast
          from w'(1) Add Some have "perform w list c = Some (LINKEDLIST_SUCCESS, w')" by simp
          then show ?thesis using w'(2,3)
            by (rule perform_repI) (simp add: Add)
        qed
      qed
    qed
  next
    case (Remove e index)
    show ?thesis
    proof (cases "mutex_status e = 0")
      case False
      with Remove lock_failure(1) [OF init False, of index]
      have "perform w list c = Some (mutex_status e, log MutexLock w)"
        by simp
      then show ?thesis
        by (rule keep) (use False in \<open>simp_all add: LINKEDLIST_SUCCESS_def\<close>)
    next
      case True
      show ?thesis
      proof (cases "unat index < length vs")
        case False
        with Remove remove_out_of_range [OF rep init True, of index]
        have "perform w list c = Some (ERANGE, w\<lparr>trace := trace w @ [MutexLock, MutexUnlock]\<rparr>)"
          by simp
        then show ?thesis by (rule keep) simp_all
      next
        case in_range: True
        from remove_in_range [OF rep init l True in_range] obtain w' h' where
          w': "linkedlist_remove w e list index = Some (LINKEDLIST_SUCCESS, w')"
            "list_rep w' list (take (unat index) cells @ drop (Suc (unat index)) cells)
              (take (unat index) vs @ drop (Suc (unat index)) vs)"
            "lists w' = (lists w)(list \<mapsto> l\<lparr>head := h'\<rparr>)"
          by blast
        from w'(1) Remove have "perform w list c = Some (LINKEDLIST_SUCCESS, w')" by simp
        then show ?thesis using w'(2,3)
          by (rule perform_repI) (use in_range in \<open>simp add: Remove\<close>)
      qed
    qed
  next
    case (Get e index buffer)
    show ?thesis
    proof (cases buffer)
      case None
      with Get null_argument(2) [OF init, of e index] have "perform w list c = Some (EINVAL, w)"
        by simp
      then show ?thesis by (rule keep) simp_all
    next
      case (Some dest)
      show ?thesis
      proof (cases "mutex_status e = 0")
        case False
        with Get Some lock_failure(2) [OF init False, of index dest]
        have "perform w list c = Some (mutex_status e, log MutexLock w)"
          by simp
        then show ?thesis by (rule keep) (simp_all add: Get)
      next
        case True
        from Get Some get_result [OF rep init l cp True, of index dest]
        have "perform w list c =
          Some (if unat index < length vs then LINKEDLIST_SUCCESS else ERANGE,
                w\<lparr>trace := trace w @
                  (if unat index < length vs then [MutexLock, CopyCall, MutexUnlock]
                   else [MutexLock, MutexUnlock])\<rparr>)"
          by simp
        then show ?thesis by (rule keep) (simp_all add: Get)
      qed
    qed
  next
    case (Update e index val)
    show ?thesis
    proof (cases val)
      case None
      with Update null_argument(3) [OF init, of e index]
      have "perform w list c = Some (EINVAL, w)"
        by simp
      then show ?thesis by (rule keep) simp_all
    next
      case (Some v)
      show ?thesis
      proof (cases "mutex_status e = 0")
        case False
        with Update Some lock_failure(3) [OF init False, of index v]
        have "perform w list c = Some (mutex_status e, log MutexLock w)"
          by simp
        then show ?thesis by (rule keep) (simp_all add: Update)
      next
        case True
        note u = update_result [OF rep init l cp True, of index v]
        show ?thesis
        proof (cases "unat index < length vs")
          case False
          with Update Some u
          have "perform w list c = Some (ERANGE, w\<lparr>trace := trace w @ [MutexLock, MutexUnlock]\<rparr>)"
            by simp
          then show ?thesis by (rule keep) simp_all
        next
          case in_range: True
          let ?x = "snd (cp (dealloc_result (dealloc l) (vs ! unat index)) v (item_size l))"
          let ?w = "w\<lparr>bufs := (bufs w)(snd (cells ! unat index) \<mapsto> ?x),
            trace := trace w @ [MutexLock] @ dealloc_events (dealloc l) @ [CopyCall, MutexUnlock]\<rparr>"
          from Update Some u in_range have "perform w list c = Some (LINKEDLIST_SUCCESS, ?w)"
            by simp
          moreover from update_rep [OF rep in_range]
          have "list_rep ?w list cells (vs[unat index := ?x])" .
          moreover from idem have "lists ?w = (lists w)(list \<mapsto> l\<lparr>head := head l\<rparr>)"
            by simp
          ultimately show ?thesis
            by (rule perform_repI) (simp add: Update)
        qed
      qed
    qed
  next
    case (Length e length_buffer)
    show ?thesis
    proof (cases length_buffer)
      case None
      with Length null_argument(4) [OF init, of e] have "perform w list c = Some (EINVAL, w)"
        by simp
      then show ?thesis by (rule keep) simp_all
    next
      case (Some old)
      show ?thesis
      proof (cases "mutex_status e = 0")
        case False
        with Length Some lock_failure(4) [OF init False, of old]
        have "perform w list c = Some (mutex_status e, log MutexLock w)"
          by simp
        then show ?thesis by (rule keep) (simp_all add: Length)
      next
        case True
        with Length Some length_result [OF rep init True, of old]
        have "perform w list c =
          Some (LINKEDLIST_SUCCESS, w\<lparr>trace := trace w @ [MutexLock, MutexUnlock]\<rparr>)"
          by simp
        then show ?thesis by (rule keep) (simp_all add: Length)
      qed
    qed
  qed
qed

lemma run_rep:
  assumes "list_rep w list cells vs" "linkedlist_initialized w list = Some True"
    "lists w list = Some l"
  shows "\<exists>statuses w' cells' vs' h. run w list calls = Some (statuses, w') \<and>
      length statuses = length calls \<and> list_rep w' list cells' vs' \<and>
      linkedlist_initialized w' list = Some True \<and>
      lists w' = (lists w)(list \<mapsto> l\<lparr>head := h\<rparr>) \<and>
      length vs' + successes is_remove calls statuses =
      length vs + successes is_add calls statuses"
  using assms
proof (induction calls arbitrary: w cells vs l)
  case Nil
  then have "lists w = (lists w)(list \<mapsto> l\<lparr>head := head l\<rparr>)"
    by (simp add: map_upd_triv)
  moreover have "run w list [] = Some ([], w)" by simp
  moreover have "length vs + successes is_remove [] [] = length vs + successes is_add [] []"
    by simp
  moreover have "length ([] :: int list) = length ([] :: call list)" by simp
  ultimately show ?case using Nil.prems(1,2) by blast
next
  case (Cons c calls)
  from perform_rep [OF Cons.prems, of c] obtain status w1 cells1 vs1 h1 where
    p: "perform w list c = Some (status, w1)" "list_rep w1 list cells1 vs1"
       "lists w1 = (lists w)(list \<mapsto> l\<lparr>head := h1\<rparr>)"
       "length vs1 + (if is_remove c \<and> status = LINKEDLIST_SUCCESS then 1 else 0) =
        length vs + (if is_add c \<and> status = LINKEDLIST_SUCCESS then 1 else 0)"
    by blast
  from Cons.prems(2,3) p(3) have i1: "linkedlist_initialized w1 list = Some True"
    by (simp add: initialized_head)
  from p(3) have l1: "lists w1 list = Some (l\<lparr>head := h1\<rparr>)" by simp
  from Cons.IH [OF p(2) i1 l1] obtain statuses w2 cells2 vs2 h2 where
    r: "run w1 list calls = Some (statuses, w2)" "length statuses = length calls"
       "list_rep w2 list cells2 vs2" "linkedlist_initialized w2 list = Some True"
       "lists w2 = (lists w1)(list \<mapsto> l\<lparr>head := h1\<rparr>\<lparr>head := h2\<rparr>)"
       "length vs2 + successes is_remove calls statuses =
        length vs1 + successes is_add calls statuses"
    by blast
  from p(1) r(1) have "run w list (c # calls) = Some (status # statuses, w2)" by simp
  moreover from r(2) have "length (status # statuses) = length (c # calls)" by simp
  moreover from r(5) p(3) have "lists w2 = (lists w)(list \<mapsto> l\<lparr>head := h2\<rparr>)" by simp
  moreover from p(4) r(6) have "length vs2 + successes is_remove (c # calls) (status # statuses) =
      length vs + successes is_add (c # calls) (status # statuses)"
    by (simp split: if_splits)
  ultimately show ?case using r(3,4) by blast
qed

lemma initialize_success:
  assumes "linkedlist_initialize w0 e list isize cp de = Some (LINKEDLIST_SUCCESS, w)"
  shows "list_rep w list [] []" and "linkedlist_initialized w list = Some True"
    and "lists w list = Some \<lparr>head = NULL, item_size = isize,
      copy = Some (case cp of Some c \<Rightarrow> c | None \<Rightarrow> memcpy), dealloc = de\<rparr>"
  using assms
  by (auto simp: linkedlist_initialize_def linkedlist_initialized_def list_rep_def log_def
      LINKEDLIST_SUCCESS_def EINVAL_def Let_def split: if_splits Option.bind_splits)

text \<open>Every state that the operations reach from a successful \<^verbatim>\<open>linkedlist_initialize\<close>
  is well-formed and initialized, and every call on the way returns.\<close>

lemma reachable_well_formed:
  assumes "linkedlist_initialize w0 e list isize cp de = Some (LINKEDLIST_SUCCESS, w)"
  shows "\<exists>statuses w' cells vs. run w list calls = Some (statuses, w') \<and>
      list_rep w' list cells vs \<and> linkedlist_initialized w' list = Some True"
  using run_rep [OF initialize_success [OF assms], of calls] by blast

subsection \<open>What a failing call leaves\<close>

lemma add_failure:
  assumes "linkedlist_add w e list val = Some (status, w')" "status \<noteq> LINKEDLIST_SUCCESS"
  shows "unchanged w w'"
proof (cases "linkedlist_initialized w list")
  case None
  with assms(1) show ?thesis by (simp add: linkedlist_add_def)
next
  case (Some ok)
  show ?thesis
  proof (cases ok)
    case False
    with Some assms(1) not_initialized(1) [of w list e val] show ?thesis by simp
  next
    case True
    with Some have init: "linkedlist_initialized w list = Some True" by simp
    then obtain l c where l: "lists w list = Some l" "copy l = Some c"
      by (rule initializedD)
    show ?thesis
    proof (cases val)
      case None
      with assms(1) null_argument(1) [OF init, of e] show ?thesis by simp
    next
      case (Some v)
      show ?thesis
      proof (cases "add_can_allocate w e")
        case False
        with Some assms(1) add_no_memory [OF init False, of v] show ?thesis by simp
      next
        case alloc: True
        show ?thesis
        proof (cases "mutex_status e = 0")
          case False
          with Some assms(1) add_lock_failure [OF init alloc False, of v] show ?thesis by auto
        next
          case True
          from add_links [OF init l alloc True refl, of v] Some assms show ?thesis
            by (auto split: Option.bind_splits if_splits)
        qed
      qed
    qed
  qed
qed

lemma unlink_failure:
  assumes "remove_unlink w list l index = Some (status, to_be_freed, w2)"
    "status \<noteq> LINKEDLIST_SUCCESS"
  shows "to_be_freed = NULL \<and> w2 = w"
  using assms
  by (auto simp: remove_unlink_def split: if_splits Option.bind_splits)

lemma remove_failure:
  assumes "linkedlist_remove w e list index = Some (status, w')" "status \<noteq> LINKEDLIST_SUCCESS"
  shows "unchanged w w' \<and>
    trace w' \<in> {trace w, trace w @ [MutexLock], trace w @ [MutexLock, MutexUnlock]}"
  using assms
  by (auto simp: linkedlist_remove_def Let_def remove_free_def log_def unchanged_def
      split: if_splits Option.bind_splits dest!: unlink_failure)

lemma update_failure:
  assumes "linkedlist_update w e list index val = Some (status, w')" "status \<noteq> LINKEDLIST_SUCCESS"
  shows "unchanged w w' \<and>
    trace w' \<in> {trace w, trace w @ [MutexLock], trace w @ [MutexLock, MutexUnlock]}"
  using assms
  by (auto simp: linkedlist_update_def Let_def log_def unchanged_def
      split: if_splits Option.bind_splits option.splits)

lemma get_failure:
  assumes "linkedlist_get w e list index buffer = Some (status, out, w')"
    "status \<noteq> LINKEDLIST_SUCCESS"
  shows "unchanged w w' \<and> out = buffer"
  using assms
  by (auto simp: linkedlist_get_def Let_def log_def unchanged_def
      split: if_splits Option.bind_splits option.splits)

lemma length_failure:
  assumes "linkedlist_length w e list length_buffer = Some (status, out, w')"
    "status \<noteq> LINKEDLIST_SUCCESS"
  shows "unchanged w w' \<and> out = length_buffer"
  using assms
  by (auto simp: linkedlist_length_def Let_def log_def unchanged_def
      split: if_splits Option.bind_splits option.splits)

lemma initialize_failure:
  assumes "linkedlist_initialize w e list isize cp de = Some (status, w')"
    "status \<noteq> LINKEDLIST_SUCCESS"
  shows "unchanged w w'"
  using assms
  by (auto simp: linkedlist_initialize_def Let_def log_def unchanged_def
      split: if_splits Option.bind_splits)

subsection \<open>The scenario of the specification\<close>

lemma scenario_result:
  "scenario = Some ([0, 0, 0, 0, 0, 0, 0, 0, 0, 0, EINVAL], [Some 2, Some 1],
     [Some [69, 0, 0, 0], Some [210, 4, 0, 0], Some [210, 4, 0, 0]])"
  by (simp add: scenario_def raw_world_def good_env_def linkedlist_initialize_def
      linkedlist_add_def linkedlist_length_def linkedlist_get_def linkedlist_update_def
      linkedlist_remove_def linkedlist_destroy_def linkedlist_initialized_def
      remove_unlink_def remove_free_def call_copy_def call_dealloc_def free_value_def
      free_item_def malloc_def log_def memcpy_def fresh_buffer_def
      walk.simps add_last.simps length_count.simps destroy_items.simps
      LINKEDLIST_SUCCESS_def Let_def)

subsection \<open>The default copy\<close>

lemma memcpy_whole:
  "length src = unat n \<Longrightarrow> length dest \<le> unat n \<Longrightarrow> snd (memcpy dest src n) = src"
  by (simp add: memcpy_def)

lemma length_fresh_buffer: "length (fresh_buffer n junk) = unat n"
  by (simp add: fresh_buffer_def)

lemma add_success_only:
  assumes init: "linkedlist_initialized w list = Some True"
    and add: "linkedlist_add w e list (Some v) = Some (LINKEDLIST_SUCCESS, w')"
  shows "add_can_allocate w e \<and> mutex_status e = 0"
proof -
  have "add_can_allocate w e"
  proof (rule ccontr)
    assume "\<not> add_can_allocate w e"
    from add_no_memory [OF init this, of v] add show False by simp
  qed
  moreover have "mutex_status e = 0"
  proof (rule ccontr)
    assume "mutex_status e \<noteq> 0"
    from add_lock_failure [OF init \<open>add_can_allocate w e\<close> this, of v] add
      \<open>mutex_status e \<noteq> 0\<close>
    show False
      by (auto simp: LINKEDLIST_SUCCESS_def)
  qed
  ultimately show ?thesis ..
qed

section \<open>The claims\<close>

text \<open>
  C1. On an initialized, well-formed list a call \<^verbatim>\<open>linkedlist_add(list, v)\<close> with \<open>v\<close>
  not \<^verbatim>\<open>NULL\<close>, whose two allocations succeed and which acquires the lock, returns, and
  returns \<^verbatim>\<open>LINKEDLIST_SUCCESS\<close> (by \<open>add_success_only\<close> these are the only calls that
  do). It leaves the old nodes and their values in place and in order and puts one new
  node behind the last of them, whose buffer holds what the list's copy hook made of \<open>v\<close>
  in a new buffer. A \<^verbatim>\<open>linkedlist_get\<close> at the index equal to the old length, right after
  it and with the lock acquired, succeeds and hands out what the copy hook makes of the
  stored value. This is \<open>v\<close> itself for a copy hook that reproduces \<open>v\<close> whatever the
  destination held, and for the default hook \<^verbatim>\<open>memcpy\<close> with buffers of \<^verbatim>\<open>item_size\<close>
  bytes. At every index below the old length \<^verbatim>\<open>linkedlist_get\<close> hands out after the call
  what it handed out before.
\<close>

theorem add_appends_copy:
  assumes rep: "list_rep w list cells vs"
    and init: "linkedlist_initialized w list = Some True"
    and l: "lists w list = Some l" and c: "copy l = Some c"
    and alloc: "add_can_allocate w e" and lock_add: "mutex_status e = 0"
    and index: "unat index = length vs"
    and lock: "mutex_status e' = 0"
  shows "\<exists>w'. linkedlist_add w e list (Some v) = Some (LINKEDLIST_SUCCESS, w') \<and>
         list_rep w' list (cells @ [(item_place e, value_place e)])
           (vs @ [snd (c (fresh_buffer (item_size l) (value_junk e)) v (item_size l))]) \<and>
         linkedlist_get w' e' list index (Some dest) =
           Some (LINKEDLIST_SUCCESS,
                 Some (snd (c dest (snd (c (fresh_buffer (item_size l) (value_junk e)) v
                   (item_size l))) (item_size l))),
                 w'\<lparr>trace := trace w' @ [MutexLock, CopyCall, MutexUnlock]\<rparr>) \<and>
         ((\<forall>d. snd (c d v (item_size l)) = v) \<or>
          c = memcpy \<and> length v = unat (item_size l) \<and> length dest = unat (item_size l) \<longrightarrow>
          linkedlist_get w' e' list index (Some dest) =
            Some (LINKEDLIST_SUCCESS, Some v,
                  w'\<lparr>trace := trace w' @ [MutexLock, CopyCall, MutexUnlock]\<rparr>)) \<and>
         (\<forall>j. unat j < length vs \<longrightarrow>
            linkedlist_get w e' list j (Some dest) =
              Some (LINKEDLIST_SUCCESS, Some (snd (c dest (vs ! unat j) (item_size l))),
                    w\<lparr>trace := trace w @ [MutexLock, CopyCall, MutexUnlock]\<rparr>) \<and>
            linkedlist_get w' e' list j (Some dest) =
              Some (LINKEDLIST_SUCCESS, Some (snd (c dest (vs ! unat j) (item_size l))),
                    w'\<lparr>trace := trace w' @ [MutexLock, CopyCall, MutexUnlock]\<rparr>))"
proof -
  let ?stored = "snd (c (fresh_buffer (item_size l) (value_junk e)) v (item_size l))"
  let ?cells = "cells @ [(item_place e, value_place e)]"
  let ?l = "l\<lparr>head := (if cells = [] then item_place e else head l)\<rparr>"
  from add_success [OF rep init l c alloc lock_add, of v] obtain w' where
    add: "linkedlist_add w e list (Some v) = Some (LINKEDLIST_SUCCESS, w')"
    and rep': "list_rep w' list ?cells (vs @ [?stored])"
    and l': "lists w' = (lists w)(list \<mapsto> ?l)"
    by blast
  from l' have l'': "lists w' list = Some ?l" by simp
  with l init have init': "linkedlist_initialized w' list = Some True"
    by (simp add: linkedlist_initialized_def split: if_splits)
  from c have c': "copy ?l = Some c" by simp
  from get_result [OF rep' init' l'' c' lock, of index dest] index
  have get: "linkedlist_get w' e' list index (Some dest) =
      Some (LINKEDLIST_SUCCESS, Some (snd (c dest ?stored (item_size l))),
            w'\<lparr>trace := trace w' @ [MutexLock, CopyCall, MutexUnlock]\<rparr>)"
    by simp
  have "snd (c dest ?stored (item_size l)) = v"
    if "c = memcpy" "length v = unat (item_size l)" "length dest = unat (item_size l)"
    using that by (simp add: memcpy_whole length_fresh_buffer)
  moreover have "snd (c dest ?stored (item_size l)) = v"
    if "\<forall>d. snd (c d v (item_size l)) = v"
    using that by simp
  ultimately have same: "(\<forall>d. snd (c d v (item_size l)) = v) \<or>
      c = memcpy \<and> length v = unat (item_size l) \<and> length dest = unat (item_size l) \<longrightarrow>
      linkedlist_get w' e' list index (Some dest) =
        Some (LINKEDLIST_SUCCESS, Some v,
              w'\<lparr>trace := trace w' @ [MutexLock, CopyCall, MutexUnlock]\<rparr>)"
    using get by auto
  have kept: "\<forall>j. unat j < length vs \<longrightarrow>
      linkedlist_get w e' list j (Some dest) =
        Some (LINKEDLIST_SUCCESS, Some (snd (c dest (vs ! unat j) (item_size l))),
              w\<lparr>trace := trace w @ [MutexLock, CopyCall, MutexUnlock]\<rparr>) \<and>
      linkedlist_get w' e' list j (Some dest) =
        Some (LINKEDLIST_SUCCESS, Some (snd (c dest (vs ! unat j) (item_size l))),
              w'\<lparr>trace := trace w' @ [MutexLock, CopyCall, MutexUnlock]\<rparr>)"
  proof (intro allI impI)
    fix j :: uint
    assume "unat j < length vs"
    with get_result [OF rep init l c lock, of j dest]
      get_result [OF rep' init' l'' c' lock, of j dest]
    show "linkedlist_get w e' list j (Some dest) =
        Some (LINKEDLIST_SUCCESS, Some (snd (c dest (vs ! unat j) (item_size l))),
              w\<lparr>trace := trace w @ [MutexLock, CopyCall, MutexUnlock]\<rparr>) \<and>
      linkedlist_get w' e' list j (Some dest) =
        Some (LINKEDLIST_SUCCESS, Some (snd (c dest (vs ! unat j) (item_size l))),
              w'\<lparr>trace := trace w' @ [MutexLock, CopyCall, MutexUnlock]\<rparr>)"
      by (simp add: nth_append)
  qed
  from add rep' get same kept show ?thesis by blast
qed

theorem add_appends_copy_witness:
  "list_rep two_world 1 [(16, 32), (48, 64)] [[42, 0, 0, 0], [69, 0, 0, 0]] \<and>
   add_can_allocate two_world good_env \<and>
   (\<exists>w'. linkedlist_add two_world good_env 1 (Some [7, 0, 0, 0]) =
        Some (LINKEDLIST_SUCCESS, w') \<and>
     list_rep w' 1 [(16, 32), (48, 64), (80, 96)] [[42, 0, 0, 0], [69, 0, 0, 0], [7, 0, 0, 0]] \<and>
     linkedlist_get w' good_env 1 2 (Some [9, 9, 9, 9]) =
       Some (LINKEDLIST_SUCCESS, Some [7, 0, 0, 0],
             w'\<lparr>trace := trace w' @ [MutexLock, CopyCall, MutexUnlock]\<rparr>) \<and>
     linkedlist_get w' good_env 1 0 (Some [9, 9, 9, 9]) =
       Some (LINKEDLIST_SUCCESS, Some [42, 0, 0, 0],
             w'\<lparr>trace := trace w' @ [MutexLock, CopyCall, MutexUnlock]\<rparr>) \<and>
     linkedlist_get w' good_env 1 1 (Some [9, 9, 9, 9]) =
       Some (LINKEDLIST_SUCCESS, Some [69, 0, 0, 0],
             w'\<lparr>trace := trace w' @ [MutexLock, CopyCall, MutexUnlock]\<rparr>))"
proof -
  have rep: "list_rep two_world 1 [(16, 32), (48, 64)] [[42, 0, 0, 0], [69, 0, 0, 0]]"
    by (simp add: list_rep_def two_world_def)
  have init: "linkedlist_initialized two_world 1 = Some True"
    by (simp add: linkedlist_initialized_def two_world_def)
  have l: "lists two_world 1 =
      Some \<lparr>head = 16, item_size = 4, copy = Some memcpy, dealloc = None\<rparr>"
    by (simp add: two_world_def)
  have c: "copy \<lparr>head = 16, item_size = 4, copy = Some memcpy, dealloc = None\<rparr> = Some memcpy"
    by simp
  have alloc: "add_can_allocate two_world good_env"
    by (simp add: add_can_allocate_def malloc_def two_world_def good_env_def)
  have lock: "mutex_status good_env = 0"
    by (simp add: good_env_def)
  have index: "unat (2 :: uint) = length [[42, 0, 0, 0], [69, 0, 0, 0 :: byte]]"
    by simp
  from add_appends_copy [where v = "[7, 0, 0, 0]" and dest = "[9, 9, 9, 9]",
      OF rep init l c alloc lock index lock]
  obtain w' where
    a: "linkedlist_add two_world good_env 1 (Some [7, 0, 0, 0]) = Some (LINKEDLIST_SUCCESS, w')"
      "list_rep w' 1 ([(16, 32), (48, 64)] @ [(item_place good_env, value_place good_env)])
        ([[42, 0, 0, 0], [69, 0, 0, 0]] @
         [snd (memcpy (fresh_buffer 4 (value_junk good_env)) [7, 0, 0, 0] 4)])"
      "linkedlist_get w' good_env 1 2 (Some [9, 9, 9, 9]) =
        Some (LINKEDLIST_SUCCESS,
              Some (snd (memcpy [9, 9, 9, 9]
                (snd (memcpy (fresh_buffer 4 (value_junk good_env)) [7, 0, 0, 0] 4)) 4)),
              w'\<lparr>trace := trace w' @ [MutexLock, CopyCall, MutexUnlock]\<rparr>)"
      "\<forall>j. unat j < length [[42, 0, 0, 0], [69, 0, 0, 0 :: byte]] \<longrightarrow>
         linkedlist_get w' good_env 1 j (Some [9, 9, 9, 9]) =
           Some (LINKEDLIST_SUCCESS,
                 Some (snd (memcpy [9, 9, 9, 9] ([[42, 0, 0, 0], [69, 0, 0, 0]] ! unat j) 4)),
                 w'\<lparr>trace := trace w' @ [MutexLock, CopyCall, MutexUnlock]\<rparr>)"
    by (simp only: LinkedList.simps) blast
  from a(2) have r: "list_rep w' 1 [(16, 32), (48, 64), (80, 96)]
      [[42, 0, 0, 0], [69, 0, 0, 0], [7, 0, 0, 0]]"
    by (simp add: good_env_def memcpy_def fresh_buffer_def)
  from a(3) have g2: "linkedlist_get w' good_env 1 2 (Some [9, 9, 9, 9]) =
      Some (LINKEDLIST_SUCCESS, Some [7, 0, 0, 0],
            w'\<lparr>trace := trace w' @ [MutexLock, CopyCall, MutexUnlock]\<rparr>)"
    by (simp add: good_env_def memcpy_def fresh_buffer_def)
  from a(4) [rule_format, of 0] have g0: "linkedlist_get w' good_env 1 0 (Some [9, 9, 9, 9]) =
      Some (LINKEDLIST_SUCCESS, Some [42, 0, 0, 0],
            w'\<lparr>trace := trace w' @ [MutexLock, CopyCall, MutexUnlock]\<rparr>)"
    by (simp add: memcpy_def)
  from a(4) [rule_format, of 1] have g1: "linkedlist_get w' good_env 1 1 (Some [9, 9, 9, 9]) =
      Some (LINKEDLIST_SUCCESS, Some [69, 0, 0, 0],
            w'\<lparr>trace := trace w' @ [MutexLock, CopyCall, MutexUnlock]\<rparr>)"
    by (simp add: memcpy_def)
  from rep alloc a(1) r g2 g0 g1 show ?thesis by blast
qed

text \<open>
  C2. On an initialized, well-formed list that holds \<open>n\<close> values, with the lock acquired
  and with a value and an output buffer that are not \<^verbatim>\<open>NULL\<close>: for every index \<open>i \<ge> n\<close>
  (every index when the list is empty, and \<open>i = n\<close>) \<^verbatim>\<open>linkedlist_get\<close>,
  \<^verbatim>\<open>linkedlist_update\<close> and \<^verbatim>\<open>linkedlist_remove\<close> return \<^verbatim>\<open>ERANGE\<close>, which is not
  \<^verbatim>\<open>EINVAL\<close>; for every index \<open>i < n\<close> they return \<^verbatim>\<open>LINKEDLIST_SUCCESS\<close>, which is not
  \<^verbatim>\<open>ERANGE\<close>.
\<close>

theorem index_out_of_range:
  assumes rep: "list_rep w list cells vs"
    and init: "linkedlist_initialized w list = Some True"
    and lock: "mutex_status e = 0"
  shows "(length vs \<le> unat index \<longrightarrow>
           (\<exists>w'. linkedlist_get w e list index (Some dest) = Some (ERANGE, Some dest, w')) \<and>
           (\<exists>w'. linkedlist_update w e list index (Some v) = Some (ERANGE, w')) \<and>
           (\<exists>w'. linkedlist_remove w e list index = Some (ERANGE, w'))) \<and>
         (unat index < length vs \<longrightarrow>
           (\<exists>out w'. linkedlist_get w e list index (Some dest) =
              Some (LINKEDLIST_SUCCESS, out, w')) \<and>
           (\<exists>w'. linkedlist_update w e list index (Some v) = Some (LINKEDLIST_SUCCESS, w')) \<and>
           (\<exists>w'. linkedlist_remove w e list index = Some (LINKEDLIST_SUCCESS, w'))) \<and>
         ERANGE \<noteq> EINVAL \<and> LINKEDLIST_SUCCESS \<noteq> ERANGE"
proof -
  from init obtain l c where l: "lists w list = Some l" "copy l = Some c"
    by (rule initializedD)
  note g = get_result [OF rep init l lock, of index dest]
    and u = update_result [OF rep init l lock, of index v]
  have "(\<exists>w'. linkedlist_get w e list index (Some dest) = Some (ERANGE, Some dest, w')) \<and>
      (\<exists>w'. linkedlist_update w e list index (Some v) = Some (ERANGE, w')) \<and>
      (\<exists>w'. linkedlist_remove w e list index = Some (ERANGE, w'))"
    if "length vs \<le> unat index"
    using that g u remove_out_of_range [OF rep init lock that] by simp
  moreover have "(\<exists>out w'. linkedlist_get w e list index (Some dest) =
        Some (LINKEDLIST_SUCCESS, out, w')) \<and>
      (\<exists>w'. linkedlist_update w e list index (Some v) = Some (LINKEDLIST_SUCCESS, w')) \<and>
      (\<exists>w'. linkedlist_remove w e list index = Some (LINKEDLIST_SUCCESS, w'))"
    if "unat index < length vs"
    using that g u remove_in_range [OF rep init l(1) lock that] by auto
  ultimately show ?thesis by simp
qed

theorem index_out_of_range_witness:
  "list_rep two_world 1 [(16, 32), (48, 64)] [[42, 0, 0, 0], [69, 0, 0, 0]] \<and>
   (\<exists>w'. linkedlist_get two_world good_env 1 2 (Some [0, 0, 0, 0]) =
      Some (ERANGE, Some [0, 0, 0, 0], w')) \<and>
   (\<exists>w'. linkedlist_update two_world good_env 1 2 (Some [1, 1, 1, 1]) = Some (ERANGE, w')) \<and>
   (\<exists>w'. linkedlist_remove two_world good_env 1 2 = Some (ERANGE, w')) \<and>
   (\<exists>out w'. linkedlist_get two_world good_env 1 1 (Some [0, 0, 0, 0]) =
      Some (LINKEDLIST_SUCCESS, out, w')) \<and>
   (\<exists>w'. linkedlist_update two_world good_env 1 1 (Some [1, 1, 1, 1]) =
      Some (LINKEDLIST_SUCCESS, w')) \<and>
   (\<exists>w'. linkedlist_remove two_world good_env 1 1 = Some (LINKEDLIST_SUCCESS, w'))"
proof -
  have rep: "list_rep two_world 1 [(16, 32), (48, 64)] [[42, 0, 0, 0], [69, 0, 0, 0]]"
    by (simp add: list_rep_def two_world_def)
  have init: "linkedlist_initialized two_world 1 = Some True"
    by (simp add: linkedlist_initialized_def two_world_def)
  have lock: "mutex_status good_env = 0"
    by (simp add: good_env_def)
  from index_out_of_range [OF rep init lock, of 2 "[0, 0, 0, 0]" "[1, 1, 1, 1]"]
    index_out_of_range [OF rep init lock, of 1 "[0, 0, 0, 0]" "[1, 1, 1, 1]"] rep
  show ?thesis by simp
qed

text \<open>
  C3. On an initialized, well-formed list, with the lock acquired, \<^verbatim>\<open>linkedlist_remove\<close>
  at a valid index \<open>i\<close> succeeds and leaves the nodes and values before \<open>i\<close> followed by
  those after \<open>i\<close>. A \<^verbatim>\<open>linkedlist_get\<close> at \<open>i\<close> after it hands out the copy of the value
  that was at \<open>i + 1\<close>, exactly what a \<^verbatim>\<open>linkedlist_get\<close> at \<open>i + 1\<close> handed out before;
  when \<open>i\<close> was the last valid index it returns \<^verbatim>\<open>ERANGE\<close>.
\<close>

theorem remove_shifts_down:
  assumes rep: "list_rep w list cells vs"
    and init: "linkedlist_initialized w list = Some True"
    and l: "lists w list = Some l" and c: "copy l = Some c"
    and lock: "mutex_status e = 0" and lock': "mutex_status e' = 0"
    and range: "unat index < length vs"
  shows "\<exists>w'. linkedlist_remove w e list index = Some (LINKEDLIST_SUCCESS, w') \<and>
      list_rep w' list (take (unat index) cells @ drop (Suc (unat index)) cells)
        (take (unat index) vs @ drop (Suc (unat index)) vs) \<and>
      (Suc (unat index) < length vs \<longrightarrow>
         linkedlist_get w' e' list index (Some dest) =
           Some (LINKEDLIST_SUCCESS, Some (snd (c dest (vs ! Suc (unat index)) (item_size l))),
                 w'\<lparr>trace := trace w' @ [MutexLock, CopyCall, MutexUnlock]\<rparr>) \<and>
         (index + 1 \<noteq> 0 \<longrightarrow>
            (\<exists>w''. linkedlist_get w e' list (index + 1) (Some dest) =
               Some (LINKEDLIST_SUCCESS,
                     Some (snd (c dest (vs ! Suc (unat index)) (item_size l))), w'')))) \<and>
      (Suc (unat index) = length vs \<longrightarrow>
         linkedlist_get w' e' list index (Some dest) =
           Some (ERANGE, Some dest, w'\<lparr>trace := trace w' @ [MutexLock, MutexUnlock]\<rparr>))"
proof -
  let ?k = "unat index"
  let ?vs = "take ?k vs @ drop (Suc ?k) vs"
  from remove_in_range [OF rep init l lock range] obtain w' h' where
    w': "linkedlist_remove w e list index = Some (LINKEDLIST_SUCCESS, w')"
      "list_rep w' list (take ?k cells @ drop (Suc ?k) cells) ?vs"
      "lists w' = (lists w)(list \<mapsto> l\<lparr>head := h'\<rparr>)"
    by blast
  from w'(3) have l': "lists w' list = Some (l\<lparr>head := h'\<rparr>)" by simp
  from init l w'(3) have init': "linkedlist_initialized w' list = Some True"
    by (simp add: initialized_head)
  from c have c': "copy (l\<lparr>head := h'\<rparr>) = Some c" by simp
  note g = get_result [OF w'(2) init' l' c' lock', of index dest]
  from range have len: "length ?vs = length vs - 1" by simp
  have shifted: "linkedlist_get w' e' list index (Some dest) =
      Some (LINKEDLIST_SUCCESS, Some (snd (c dest (vs ! Suc ?k) (item_size l))),
            w'\<lparr>trace := trace w' @ [MutexLock, CopyCall, MutexUnlock]\<rparr>)"
    if "Suc ?k < length vs"
  proof -
    from that have "?vs ! ?k = vs ! Suc ?k"
      by (simp add: nth_append)
    with g that len show ?thesis by simp
  qed
  have before: "\<exists>w''. linkedlist_get w e' list (index + 1) (Some dest) =
      Some (LINKEDLIST_SUCCESS, Some (snd (c dest (vs ! Suc ?k) (item_size l))), w'')"
    if "Suc ?k < length vs" "index + 1 \<noteq> 0"
  proof -
    from that(2) have "unat (index + 1) = Suc ?k"
      by (simp add: unatSuc add.commute)
    with get_result [OF rep init l c lock', of "index + 1" dest] that(1) show ?thesis
      by simp
  qed
  have last: "linkedlist_get w' e' list index (Some dest) =
      Some (ERANGE, Some dest, w'\<lparr>trace := trace w' @ [MutexLock, MutexUnlock]\<rparr>)"
    if "Suc ?k = length vs"
    using g that len by simp
  from w'(1,2) shifted before last show ?thesis by blast
qed

theorem remove_shifts_down_witness:
  "list_rep two_world 1 [(16, 32), (48, 64)] [[42, 0, 0, 0], [69, 0, 0, 0]] \<and>
   (\<exists>w'. linkedlist_remove two_world good_env 1 0 = Some (LINKEDLIST_SUCCESS, w') \<and>
      list_rep w' 1 [(48, 64)] [[69, 0, 0, 0]] \<and>
      linkedlist_get w' good_env 1 0 (Some [0, 0, 0, 0]) =
        Some (LINKEDLIST_SUCCESS, Some [69, 0, 0, 0],
              w'\<lparr>trace := trace w' @ [MutexLock, CopyCall, MutexUnlock]\<rparr>)) \<and>
   (\<exists>w'. linkedlist_remove two_world good_env 1 1 = Some (LINKEDLIST_SUCCESS, w') \<and>
      list_rep w' 1 [(16, 32)] [[42, 0, 0, 0]] \<and>
      linkedlist_get w' good_env 1 1 (Some [0, 0, 0, 0]) =
        Some (ERANGE, Some [0, 0, 0, 0], w'\<lparr>trace := trace w' @ [MutexLock, MutexUnlock]\<rparr>))"
proof -
  have rep: "list_rep two_world 1 [(16, 32), (48, 64)] [[42, 0, 0, 0], [69, 0, 0, 0]]"
    by (simp add: list_rep_def two_world_def)
  have init: "linkedlist_initialized two_world 1 = Some True"
    by (simp add: linkedlist_initialized_def two_world_def)
  have l: "lists two_world 1 =
      Some \<lparr>head = 16, item_size = 4, copy = Some memcpy, dealloc = None\<rparr>"
    by (simp add: two_world_def)
  have lock: "mutex_status good_env = 0"
    by (simp add: good_env_def)
  from remove_shifts_down [OF rep init l _ lock lock, of memcpy 0 "[0, 0, 0, 0]"]
  have first: "\<exists>w'. linkedlist_remove two_world good_env 1 0 = Some (LINKEDLIST_SUCCESS, w') \<and>
      list_rep w' 1 [(48, 64)] [[69, 0, 0, 0]] \<and>
      linkedlist_get w' good_env 1 0 (Some [0, 0, 0, 0]) =
        Some (LINKEDLIST_SUCCESS, Some [69, 0, 0, 0],
              w'\<lparr>trace := trace w' @ [MutexLock, CopyCall, MutexUnlock]\<rparr>)"
    by (simp add: memcpy_def) blast
  from remove_shifts_down [OF rep init l _ lock lock, of memcpy 1 "[0, 0, 0, 0]"]
  have last: "\<exists>w'. linkedlist_remove two_world good_env 1 1 = Some (LINKEDLIST_SUCCESS, w') \<and>
      list_rep w' 1 [(16, 32)] [[42, 0, 0, 0]] \<and>
      linkedlist_get w' good_env 1 1 (Some [0, 0, 0, 0]) =
        Some (ERANGE, Some [0, 0, 0, 0], w'\<lparr>trace := trace w' @ [MutexLock, MutexUnlock]\<rparr>)"
    by simp
  from rep first last show ?thesis by (intro conjI)
qed

text \<open>
  C4. Starting from an initialized empty list (as \<^verbatim>\<open>linkedlist_initialize\<close> leaves it, or
  emptied again), every call of any sequence of \<^verbatim>\<open>linkedlist_add\<close>, \<^verbatim>\<open>linkedlist_remove\<close>,
  \<^verbatim>\<open>linkedlist_update\<close>, \<^verbatim>\<open>linkedlist_get\<close> (and \<^verbatim>\<open>linkedlist_length\<close>) calls returns.
  After the sequence \<^verbatim>\<open>linkedlist_length\<close>, with the lock acquired, returns
  \<^verbatim>\<open>LINKEDLIST_SUCCESS\<close> and writes the number of nodes of the chain from the head,
  without wrapping around, and this number is the number of adds that returned
  \<^verbatim>\<open>LINKEDLIST_SUCCESS\<close> minus the number of removes that did. A sequence in which every
  call succeeds is the special case where these are all its adds and all its removes.
\<close>

theorem length_is_adds_minus_removes:
  assumes rep: "list_rep w list [] []"
    and init: "linkedlist_initialized w list = Some True"
    and lock: "mutex_status e = 0"
  shows "\<exists>statuses w' cells vs.
      run w list calls = Some (statuses, w') \<and> length statuses = length calls \<and>
      list_rep w' list cells vs \<and>
      linkedlist_length w' e list (Some old) =
        Some (LINKEDLIST_SUCCESS, Some (of_nat (length cells)),
              w'\<lparr>trace := trace w' @ [MutexLock, MutexUnlock]\<rparr>) \<and>
      unat (of_nat (length cells) :: size_t) = length cells \<and>
      int (length cells) =
        int (successes is_add calls statuses) - int (successes is_remove calls statuses)"
proof -
  from init obtain l where l: "lists w list = Some l" by (rule initializedD)
  from run_rep [OF rep init l, of calls] obtain statuses w' cells vs where
    r: "run w list calls = Some (statuses, w')" "length statuses = length calls"
       "list_rep w' list cells vs" "linkedlist_initialized w' list = Some True"
       "length vs + successes is_remove calls statuses =
        length ([] :: bytes list) + successes is_add calls statuses"
    by blast
  from r(3) have len: "length vs = length cells" by (rule list_rep_length)
  from r(3) have "length vs < 2 ^ 64" by (rule rep_length_bound)
  with len have "unat (of_nat (length cells) :: size_t) = length cells"
    by (simp add: unat_of_nat)
  moreover from length_result [OF r(3,4) lock, of old] len
  have "linkedlist_length w' e list (Some old) =
      Some (LINKEDLIST_SUCCESS, Some (of_nat (length cells)),
            w'\<lparr>trace := trace w' @ [MutexLock, MutexUnlock]\<rparr>)"
    by simp
  moreover from r(5) len
  have "int (length cells) =
      int (successes is_add calls statuses) - int (successes is_remove calls statuses)"
    by simp
  ultimately show ?thesis using r(1,2,3) by blast
qed

theorem length_is_adds_minus_removes_witness:
  "\<exists>w. linkedlist_initialize raw_world good_env 1 4 None None = Some (LINKEDLIST_SUCCESS, w) \<and>
     list_rep w 1 [] [] \<and> linkedlist_initialized w 1 = Some True \<and>
     (\<exists>w' cells vs.
        run w 1
          [Add good_env (Some [42, 0, 0, 0]), Get good_env 0 (Some [0, 0, 0, 0]),
           Remove good_env 0, Remove good_env 0] =
          Some ([LINKEDLIST_SUCCESS, LINKEDLIST_SUCCESS, LINKEDLIST_SUCCESS, ERANGE], w') \<and>
        list_rep w' 1 cells vs \<and>
        linkedlist_length w' good_env 1 (Some 7) =
          Some (LINKEDLIST_SUCCESS, Some 0, w'\<lparr>trace := trace w' @ [MutexLock, MutexUnlock]\<rparr>))"
proof -
  let ?calls = "[Add good_env (Some [42, 0, 0, 0]), Get good_env 0 (Some [0, 0, 0, 0]),
    Remove good_env 0, Remove good_env 0]"
  define w where "w = raw_world\<lparr>trace := [MutexInit],
    lists := [1 \<mapsto> \<lparr>head = NULL, item_size = 4, copy = Some memcpy, dealloc = None\<rparr>]\<rparr>"
  have initialize: "linkedlist_initialize raw_world good_env 1 4 None None =
      Some (LINKEDLIST_SUCCESS, w)"
    by (simp add: linkedlist_initialize_def raw_world_def good_env_def log_def w_def)
  have rep: "list_rep w 1 [] []"
    by (simp add: list_rep_def w_def)
  have init: "linkedlist_initialized w 1 = Some True"
    by (simp add: linkedlist_initialized_def w_def)
  have lock: "mutex_status good_env = 0"
    by (simp add: good_env_def)
  from length_is_adds_minus_removes [OF rep init lock, of ?calls 7] obtain statuses w' cells vs
    where r: "run w 1 ?calls = Some (statuses, w')" "list_rep w' 1 cells vs"
      "linkedlist_length w' good_env 1 (Some 7) =
        Some (LINKEDLIST_SUCCESS, Some (of_nat (length cells)),
              w'\<lparr>trace := trace w' @ [MutexLock, MutexUnlock]\<rparr>)"
      "int (length cells) =
        int (successes is_add ?calls statuses) - int (successes is_remove ?calls statuses)"
    by blast
  have "\<exists>w'. run w 1 ?calls =
      Some ([LINKEDLIST_SUCCESS, LINKEDLIST_SUCCESS, LINKEDLIST_SUCCESS, ERANGE], w')"
    by (simp add: linkedlist_add_def linkedlist_get_def linkedlist_remove_def
        linkedlist_initialized_def remove_unlink_def remove_free_def call_copy_def
        call_dealloc_def free_value_def free_item_def malloc_def log_def walk.simps
        w_def raw_world_def good_env_def Let_def)
  with r(1) have s: "statuses = [LINKEDLIST_SUCCESS, LINKEDLIST_SUCCESS, LINKEDLIST_SUCCESS, ERANGE]"
    by auto
  with r(4) have "length cells = 0" by simp
  with r s have "\<exists>w' cells vs. run w 1 ?calls =
        Some ([LINKEDLIST_SUCCESS, LINKEDLIST_SUCCESS, LINKEDLIST_SUCCESS, ERANGE], w') \<and>
      list_rep w' 1 cells vs \<and>
      linkedlist_length w' good_env 1 (Some 7) =
        Some (LINKEDLIST_SUCCESS, Some 0, w'\<lparr>trace := trace w' @ [MutexLock, MutexUnlock]\<rparr>)"
    by auto
  with initialize rep init show ?thesis by blast
qed

text \<open>
  C5. On an initialized, well-formed list, with the lock acquired, \<^verbatim>\<open>linkedlist_update\<close>
  at a valid index \<open>i\<close> with a value \<open>v2\<close> that is not \<^verbatim>\<open>NULL\<close> succeeds. It calls the
  dealloc hook, if there is one, on the buffer of node \<open>i\<close> and then the copy hook from
  \<open>v2\<close> into this same buffer: the nodes, their links and their buffers stay where they
  are, the value at \<open>i\<close> becomes what the copy hook made of \<open>v2\<close>, every other value and
  the length are as before. A \<^verbatim>\<open>linkedlist_get\<close> at \<open>i\<close> after it hands out the copy of
  the new value. This is \<open>v2\<close> itself for a copy hook that reproduces \<open>v2\<close> whatever the
  destination held, and for \<^verbatim>\<open>memcpy\<close> with buffers of \<^verbatim>\<open>item_size\<close> bytes.
\<close>

theorem update_in_place:
  assumes rep: "list_rep w list cells vs"
    and init: "linkedlist_initialized w list = Some True"
    and l: "lists w list = Some l" and c: "copy l = Some c"
    and lock: "mutex_status e = 0" and lock': "mutex_status e' = 0"
    and range: "unat index < length vs"
    and new: "new = snd (c (dealloc_result (dealloc l) (vs ! unat index)) v2 (item_size l))"
  shows "\<exists>w'. linkedlist_update w e list index (Some v2) = Some (LINKEDLIST_SUCCESS, w') \<and>
      list_rep w' list cells (vs[unat index := new]) \<and>
      length (vs[unat index := new]) = length vs \<and>
      (\<forall>j. j \<noteq> unat index \<longrightarrow> vs[unat index := new] ! j = vs ! j) \<and>
      items w' = items w \<and> lists w' = lists w \<and>
      bufs w' = (bufs w)(snd (cells ! unat index) \<mapsto> new) \<and>
      trace w' = trace w @ [MutexLock] @ dealloc_events (dealloc l) @ [CopyCall, MutexUnlock] \<and>
      linkedlist_get w' e' list index (Some dest) =
        Some (LINKEDLIST_SUCCESS, Some (snd (c dest new (item_size l))),
              w'\<lparr>trace := trace w' @ [MutexLock, CopyCall, MutexUnlock]\<rparr>) \<and>
      ((\<forall>d. snd (c d v2 (item_size l)) = v2) \<or>
       c = memcpy \<and> length v2 = unat (item_size l) \<and> length dest = unat (item_size l) \<and>
       length (dealloc_result (dealloc l) (vs ! unat index)) = unat (item_size l) \<longrightarrow>
       linkedlist_get w' e' list index (Some dest) =
         Some (LINKEDLIST_SUCCESS, Some v2,
               w'\<lparr>trace := trace w' @ [MutexLock, CopyCall, MutexUnlock]\<rparr>))"
proof -
  let ?k = "unat index"
  define w' where "w' = w\<lparr>bufs := (bufs w)(snd (cells ! ?k) \<mapsto> new),
    trace := trace w @ [MutexLock] @ dealloc_events (dealloc l) @ [CopyCall, MutexUnlock]\<rparr>"
  from update_result [OF rep init l c lock, of index v2] range new
  have u: "linkedlist_update w e list index (Some v2) = Some (LINKEDLIST_SUCCESS, w')"
    by (simp add: w'_def)
  from update_rep [OF rep range] have rep': "list_rep w' list cells (vs[?k := new])"
    by (simp add: w'_def)
  from l have l': "lists w' list = Some l" by (simp add: w'_def)
  from l l' init have init': "linkedlist_initialized w' list = Some True"
    by (simp add: initialized_unchanged [of w' list w])
  from get_result [OF rep' init' l' c lock', of index dest] range
  have g: "linkedlist_get w' e' list index (Some dest) =
      Some (LINKEDLIST_SUCCESS, Some (snd (c dest new (item_size l))),
            w'\<lparr>trace := trace w' @ [MutexLock, CopyCall, MutexUnlock]\<rparr>)"
    by simp
  have "snd (c dest new (item_size l)) = v2"
    if "c = memcpy" "length v2 = unat (item_size l)" "length dest = unat (item_size l)"
      "length (dealloc_result (dealloc l) (vs ! ?k)) = unat (item_size l)"
    using that new by (simp add: memcpy_whole)
  moreover have "snd (c dest new (item_size l)) = v2"
    if "\<forall>d. snd (c d v2 (item_size l)) = v2"
    using that new by simp
  ultimately have "(\<forall>d. snd (c d v2 (item_size l)) = v2) \<or>
       c = memcpy \<and> length v2 = unat (item_size l) \<and> length dest = unat (item_size l) \<and>
       length (dealloc_result (dealloc l) (vs ! ?k)) = unat (item_size l) \<longrightarrow>
       linkedlist_get w' e' list index (Some dest) =
         Some (LINKEDLIST_SUCCESS, Some v2,
               w'\<lparr>trace := trace w' @ [MutexLock, CopyCall, MutexUnlock]\<rparr>)"
    using g by auto
  moreover have "items w' = items w" "lists w' = lists w"
    "bufs w' = (bufs w)(snd (cells ! ?k) \<mapsto> new)"
    "trace w' = trace w @ [MutexLock] @ dealloc_events (dealloc l) @ [CopyCall, MutexUnlock]"
    by (simp_all add: w'_def)
  moreover have "length (vs[?k := new]) = length vs"
    "\<forall>j. j \<noteq> ?k \<longrightarrow> vs[?k := new] ! j = vs ! j"
    by simp_all
  ultimately show ?thesis using u rep' g by blast
qed

theorem update_in_place_witness:
  "list_rep two_world 1 [(16, 32), (48, 64)] [[42, 0, 0, 0], [69, 0, 0, 0]] \<and>
   (\<exists>w'. linkedlist_update two_world good_env 1 1 (Some [210, 4, 0, 0]) =
        Some (LINKEDLIST_SUCCESS, w') \<and>
      list_rep w' 1 [(16, 32), (48, 64)] [[42, 0, 0, 0], [210, 4, 0, 0]] \<and>
      trace w' = [MutexLock, CopyCall, MutexUnlock] \<and>
      linkedlist_get w' good_env 1 1 (Some [0, 0, 0, 0]) =
        Some (LINKEDLIST_SUCCESS, Some [210, 4, 0, 0],
              w'\<lparr>trace := trace w' @ [MutexLock, CopyCall, MutexUnlock]\<rparr>))"
proof -
  have rep: "list_rep two_world 1 [(16, 32), (48, 64)] [[42, 0, 0, 0], [69, 0, 0, 0]]"
    by (simp add: list_rep_def two_world_def)
  have init: "linkedlist_initialized two_world 1 = Some True"
    by (simp add: linkedlist_initialized_def two_world_def)
  have l: "lists two_world 1 =
      Some \<lparr>head = 16, item_size = 4, copy = Some memcpy, dealloc = None\<rparr>"
    by (simp add: two_world_def)
  have lock: "mutex_status good_env = 0"
    by (simp add: good_env_def)
  from update_in_place [OF rep init l _ lock lock _ refl, of memcpy 1 "[210, 4, 0, 0]" "[0, 0, 0, 0]"]
  have "\<exists>w'. linkedlist_update two_world good_env 1 1 (Some [210, 4, 0, 0]) =
        Some (LINKEDLIST_SUCCESS, w') \<and>
      list_rep w' 1 [(16, 32), (48, 64)] [[42, 0, 0, 0], [210, 4, 0, 0]] \<and>
      trace w' = [MutexLock, CopyCall, MutexUnlock] \<and>
      linkedlist_get w' good_env 1 1 (Some [0, 0, 0, 0]) =
        Some (LINKEDLIST_SUCCESS, Some [210, 4, 0, 0],
              w'\<lparr>trace := trace w' @ [MutexLock, CopyCall, MutexUnlock]\<rparr>)"
    by (simp add: memcpy_def dealloc_result_def dealloc_events_def two_world_def) blast
  with rep show ?thesis ..
qed

text \<open>
  C6. A call that returns a status other than \<^verbatim>\<open>LINKEDLIST_SUCCESS\<close> leaves the memory as
  it was: the list structs (head, element size, hooks), the nodes and the value buffers,
  hence the sequence of values and its length. This holds for \<^verbatim>\<open>linkedlist_add\<close>, whose
  node and buffer are freed again on every failing path, for \<^verbatim>\<open>linkedlist_remove\<close>,
  \<^verbatim>\<open>linkedlist_update\<close>, \<^verbatim>\<open>linkedlist_get\<close>, \<^verbatim>\<open>linkedlist_length\<close> and
  \<^verbatim>\<open>linkedlist_initialize\<close>. A failing \<^verbatim>\<open>linkedlist_remove\<close> or \<^verbatim>\<open>linkedlist_update\<close>, such
  as one that returns \<^verbatim>\<open>ERANGE\<close>, has made no call but those that lock and unlock the
  mutex: no dealloc, no copy. A failing \<^verbatim>\<open>linkedlist_get\<close> or \<^verbatim>\<open>linkedlist_length\<close> leaves
  the output buffer as it was.
\<close>

theorem failing_call_changes_nothing:
  assumes "status \<noteq> LINKEDLIST_SUCCESS"
  shows "(linkedlist_add w e list val = Some (status, w') \<longrightarrow> unchanged w w') \<and>
    (linkedlist_remove w e list index = Some (status, w') \<longrightarrow>
       unchanged w w' \<and>
       trace w' \<in> {trace w, trace w @ [MutexLock], trace w @ [MutexLock, MutexUnlock]}) \<and>
    (linkedlist_update w e list index val = Some (status, w') \<longrightarrow>
       unchanged w w' \<and>
       trace w' \<in> {trace w, trace w @ [MutexLock], trace w @ [MutexLock, MutexUnlock]}) \<and>
    (linkedlist_get w e list index buffer = Some (status, out, w') \<longrightarrow>
       unchanged w w' \<and> out = buffer) \<and>
    (linkedlist_length w e list length_buffer = Some (status, len, w') \<longrightarrow>
       unchanged w w' \<and> len = length_buffer) \<and>
    (linkedlist_initialize w e list isize cp de = Some (status, w') \<longrightarrow> unchanged w w') \<and>
    (unchanged w w' \<longrightarrow>
       lists w' = lists w \<and> items w' = items w \<and> bufs w' = bufs w \<and>
       list_rep w' list cells vs = list_rep w list cells vs)"
  using assms add_failure [of w e list val status w']
    remove_failure [of w e list index status w']
    update_failure [of w e list index val status w']
    get_failure [of w e list index buffer status out w']
    length_failure [of w e list length_buffer status len w']
    initialize_failure [of w e list isize cp de status w']
    list_rep_unchanged [of w w' list cells vs]
  by (simp add: unchanged_def)

theorem failing_call_changes_nothing_witness:
  "(\<exists>w'. linkedlist_add two_world (good_env\<lparr>value_place := NULL\<rparr>) 1 (Some [7, 0, 0, 0]) =
        Some (ENOMEM, w') \<and> unchanged two_world w') \<and>
   (\<exists>w'. linkedlist_add two_world (good_env\<lparr>mutex_status := 11\<rparr>) 1 (Some [7, 0, 0, 0]) =
        Some (11, w') \<and> unchanged two_world w') \<and>
   (\<exists>w'. linkedlist_remove two_world good_env 1 2 = Some (ERANGE, w') \<and>
        unchanged two_world w' \<and> trace w' = [MutexLock, MutexUnlock]) \<and>
   (\<exists>w'. linkedlist_update two_world good_env 1 2 (Some [7, 0, 0, 0]) = Some (ERANGE, w') \<and>
        unchanged two_world w' \<and> trace w' = [MutexLock, MutexUnlock]) \<and>
   (\<exists>w'. linkedlist_get two_world good_env 1 2 (Some [7, 0, 0, 0]) =
        Some (ERANGE, Some [7, 0, 0, 0], w') \<and> unchanged two_world w') \<and>
   (\<exists>w'. linkedlist_length two_world good_env 1 None = Some (EINVAL, None, w') \<and>
        unchanged two_world w') \<and>
   (\<exists>w'. linkedlist_initialize two_world good_env 1 0 None None = Some (EINVAL, w') \<and>
        unchanged two_world w')"
proof -
  have rep: "list_rep two_world 1 [(16, 32), (48, 64)] [[42, 0, 0, 0], [69, 0, 0, 0]]"
    by (simp add: list_rep_def two_world_def)
  have init: "linkedlist_initialized two_world 1 = Some True"
    by (simp add: linkedlist_initialized_def two_world_def)
  have l: "lists two_world 1 =
      Some \<lparr>head = 16, item_size = 4, copy = Some memcpy, dealloc = None\<rparr>"
    by (simp add: two_world_def)
  have lock: "mutex_status good_env = 0"
    by (simp add: good_env_def)
  have tr: "trace two_world = []"
    by (simp add: two_world_def)
  have "\<not> add_can_allocate two_world (good_env\<lparr>value_place := NULL\<rparr>)"
    by (simp add: add_can_allocate_def malloc_def)
  from add_no_memory [OF init this, of "[7, 0, 0, 0]"]
  have a1: "linkedlist_add two_world (good_env\<lparr>value_place := NULL\<rparr>) 1 (Some [7, 0, 0, 0]) =
      Some (ENOMEM, two_world)" .
  have "add_can_allocate two_world (good_env\<lparr>mutex_status := 11\<rparr>)"
    by (simp add: add_can_allocate_def malloc_def two_world_def good_env_def)
  from add_lock_failure [OF init this, of "[7, 0, 0, 0]"] obtain w2 where
    a2: "linkedlist_add two_world (good_env\<lparr>mutex_status := 11\<rparr>) 1 (Some [7, 0, 0, 0]) =
      Some (11, w2)"
    by auto
  from remove_out_of_range [OF rep init lock, of 2]
  have r: "linkedlist_remove two_world good_env 1 2 =
      Some (ERANGE, two_world\<lparr>trace := trace two_world @ [MutexLock, MutexUnlock]\<rparr>)"
    by simp
  from update_result [OF rep init l _ lock, of memcpy 2 "[7, 0, 0, 0]"]
  have u: "linkedlist_update two_world good_env 1 2 (Some [7, 0, 0, 0]) =
      Some (ERANGE, two_world\<lparr>trace := trace two_world @ [MutexLock, MutexUnlock]\<rparr>)"
    by simp
  from get_result [OF rep init l _ lock, of memcpy 2 "[7, 0, 0, 0]"]
  have g: "linkedlist_get two_world good_env 1 2 (Some [7, 0, 0, 0]) =
      Some (ERANGE, Some [7, 0, 0, 0],
            two_world\<lparr>trace := trace two_world @ [MutexLock, MutexUnlock]\<rparr>)"
    by simp
  from null_argument(4) [OF init, of good_env]
  have n: "linkedlist_length two_world good_env 1 None = Some (EINVAL, None, two_world)" .
  have i: "linkedlist_initialize two_world good_env 1 0 None None = Some (EINVAL, two_world)"
    by (simp add: linkedlist_initialize_def)
  from failing_call_changes_nothing [of ENOMEM two_world "good_env\<lparr>value_place := NULL\<rparr>" 1
      "Some [7, 0, 0, 0]" two_world] a1
  have "\<exists>w'. linkedlist_add two_world (good_env\<lparr>value_place := NULL\<rparr>) 1 (Some [7, 0, 0, 0]) =
        Some (ENOMEM, w') \<and> unchanged two_world w'"
    by simp
  moreover
  from failing_call_changes_nothing [of 11 two_world "good_env\<lparr>mutex_status := 11\<rparr>" 1
      "Some [7, 0, 0, 0]" w2] a2
  have "\<exists>w'. linkedlist_add two_world (good_env\<lparr>mutex_status := 11\<rparr>) 1 (Some [7, 0, 0, 0]) =
        Some (11, w') \<and> unchanged two_world w'"
    by (simp add: LINKEDLIST_SUCCESS_def)
  moreover
  from failing_call_changes_nothing [of ERANGE two_world good_env 1 _
      "two_world\<lparr>trace := trace two_world @ [MutexLock, MutexUnlock]\<rparr>" 2] r tr
  have "\<exists>w'. linkedlist_remove two_world good_env 1 2 = Some (ERANGE, w') \<and>
        unchanged two_world w' \<and> trace w' = [MutexLock, MutexUnlock]"
    by simp
  moreover
  from failing_call_changes_nothing [of ERANGE two_world good_env 1 "Some [7, 0, 0, 0]"
      "two_world\<lparr>trace := trace two_world @ [MutexLock, MutexUnlock]\<rparr>" 2] u tr
  have "\<exists>w'. linkedlist_update two_world good_env 1 2 (Some [7, 0, 0, 0]) = Some (ERANGE, w') \<and>
        unchanged two_world w' \<and> trace w' = [MutexLock, MutexUnlock]"
    by simp
  moreover
  from failing_call_changes_nothing [of ERANGE two_world good_env 1 _
      "two_world\<lparr>trace := trace two_world @ [MutexLock, MutexUnlock]\<rparr>" 2
      "Some [7, 0, 0, 0]" "Some [7, 0, 0, 0]"] g
  have "\<exists>w'. linkedlist_get two_world good_env 1 2 (Some [7, 0, 0, 0]) =
        Some (ERANGE, Some [7, 0, 0, 0], w') \<and> unchanged two_world w'"
    by simp
  moreover
  from failing_call_changes_nothing [of EINVAL two_world good_env 1 _ two_world _ _ _
      None None] n
  have "\<exists>w'. linkedlist_length two_world good_env 1 None = Some (EINVAL, None, w') \<and>
        unchanged two_world w'"
    by simp
  moreover
  from failing_call_changes_nothing [of EINVAL two_world good_env 1 _ two_world _ _ _
      _ _ 0 None None] i
  have "\<exists>w'. linkedlist_initialize two_world good_env 1 0 None None = Some (EINVAL, w') \<and>
        unchanged two_world w'"
    by simp
  ultimately show ?thesis by (intro conjI)
qed

text \<open>
  C7. The operations that take the lock, \<^verbatim>\<open>linkedlist_add\<close>, \<^verbatim>\<open>linkedlist_remove\<close>,
  \<^verbatim>\<open>linkedlist_get\<close>, \<^verbatim>\<open>linkedlist_update\<close> and \<^verbatim>\<open>linkedlist_length\<close>, return \<^verbatim>\<open>EINVAL\<close>
  when the list handle is \<^verbatim>\<open>NULL\<close> and when the copy hook of the list is \<^verbatim>\<open>NULL\<close>, as
  \<^verbatim>\<open>linkedlist_destroy\<close> leaves it, whatever the other arguments are. On an initialized
  list \<^verbatim>\<open>linkedlist_add\<close> and \<^verbatim>\<open>linkedlist_update\<close> return \<^verbatim>\<open>EINVAL\<close> for a value that is
  \<^verbatim>\<open>NULL\<close>, \<^verbatim>\<open>linkedlist_get\<close> and \<^verbatim>\<open>linkedlist_length\<close> for an output buffer that is
  \<^verbatim>\<open>NULL\<close>. In all these cases the call ends in the state in which it began, so with no
  call on the mutex (nor on a hook) made.
\<close>

theorem invalid_argument_before_lock:
  "(list = NULL \<or> (\<exists>l. lists w list = Some l \<and> copy l = None) \<longrightarrow>
      linkedlist_add w e list val = Some (EINVAL, w) \<and>
      linkedlist_remove w e list index = Some (EINVAL, w) \<and>
      linkedlist_get w e list index buffer = Some (EINVAL, buffer, w) \<and>
      linkedlist_update w e list index val = Some (EINVAL, w) \<and>
      linkedlist_length w e list length_buffer = Some (EINVAL, length_buffer, w)) \<and>
   (linkedlist_initialized w list = Some True \<longrightarrow>
      linkedlist_add w e list None = Some (EINVAL, w) \<and>
      linkedlist_update w e list index None = Some (EINVAL, w) \<and>
      linkedlist_get w e list index None = Some (EINVAL, None, w) \<and>
      linkedlist_length w e list None = Some (EINVAL, None, w))"
proof -
  have "linkedlist_initialized w list = Some False"
    if "list = NULL \<or> (\<exists>l. lists w list = Some l \<and> copy l = None)"
    using that by (auto simp: linkedlist_initialized_def)
  with not_initialized(1) [of w list e val] not_initialized(2) [of w list e index]
    not_initialized(3) [of w list e index buffer] not_initialized(4) [of w list e index val]
    not_initialized(5) [of w list e length_buffer]
    null_argument(1) [of w list e] null_argument(2) [of w list e index]
    null_argument(3) [of w list e index] null_argument(4) [of w list e]
  show ?thesis by blast
qed

theorem invalid_argument_before_lock_witness:
  "linkedlist_add two_world good_env NULL (Some [7, 0, 0, 0]) = Some (EINVAL, two_world) \<and>
   linkedlist_remove two_world good_env NULL 0 = Some (EINVAL, two_world) \<and>
   linkedlist_get two_world good_env NULL 0 (Some [7, 0, 0, 0]) =
     Some (EINVAL, Some [7, 0, 0, 0], two_world) \<and>
   linkedlist_update two_world good_env NULL 0 (Some [7, 0, 0, 0]) = Some (EINVAL, two_world) \<and>
   linkedlist_length two_world good_env NULL (Some 7) = Some (EINVAL, Some 7, two_world) \<and>
   linkedlist_add destroyed_world good_env 1 (Some [7, 0, 0, 0]) = Some (EINVAL, destroyed_world) \<and>
   linkedlist_remove destroyed_world good_env 1 0 = Some (EINVAL, destroyed_world) \<and>
   linkedlist_get destroyed_world good_env 1 0 (Some [7, 0, 0, 0]) =
     Some (EINVAL, Some [7, 0, 0, 0], destroyed_world) \<and>
   linkedlist_update destroyed_world good_env 1 0 (Some [7, 0, 0, 0]) =
     Some (EINVAL, destroyed_world) \<and>
   linkedlist_length destroyed_world good_env 1 (Some 7) = Some (EINVAL, Some 7, destroyed_world) \<and>
   linkedlist_initialized two_world 1 = Some True \<and>
   linkedlist_add two_world good_env 1 None = Some (EINVAL, two_world) \<and>
   linkedlist_update two_world good_env 1 0 None = Some (EINVAL, two_world) \<and>
   linkedlist_get two_world good_env 1 0 None = Some (EINVAL, None, two_world) \<and>
   linkedlist_length two_world good_env 1 None = Some (EINVAL, None, two_world)"
proof -
  have init: "linkedlist_initialized two_world 1 = Some True"
    by (simp add: linkedlist_initialized_def two_world_def)
  have destroyed: "\<exists>l. lists destroyed_world 1 = Some l \<and> copy l = None"
    by (simp add: destroyed_world_def)
  from invalid_argument_before_lock [of NULL two_world good_env "Some [7, 0, 0, 0]" 0
      "Some [7, 0, 0, 0]" "Some 7"]
    invalid_argument_before_lock [of 1 destroyed_world good_env "Some [7, 0, 0, 0]" 0
      "Some [7, 0, 0, 0]" "Some 7"]
    invalid_argument_before_lock [of 1 two_world good_env None 0 None None] init destroyed
  show ?thesis by simp
qed

text \<open>
  C8. \<^verbatim>\<open>linkedlist_destroy\<close> on a well-formed list returns; afterwards head, copy hook and
  dealloc hook of the struct are \<^verbatim>\<open>NULL\<close> and the element size is what it was, every node
  and value buffer of the list is freed, and \<^verbatim>\<open>linkedlist_add\<close>, \<^verbatim>\<open>linkedlist_remove\<close>,
  \<^verbatim>\<open>linkedlist_get\<close>, \<^verbatim>\<open>linkedlist_update\<close> and \<^verbatim>\<open>linkedlist_length\<close> return \<^verbatim>\<open>EINVAL\<close> and
  change nothing. A second \<^verbatim>\<open>linkedlist_destroy\<close> returns as well and leaves the memory as
  the first one left it; it only destroys the mutex once more.
\<close>

theorem destroy_idempotent:
  assumes rep: "list_rep w list cells vs" and l: "lists w list = Some l"
  shows "\<exists>w1 l1. linkedlist_destroy w list = Some w1 \<and> lists w1 list = Some l1 \<and>
      head l1 = NULL \<and> copy l1 = None \<and> dealloc l1 = None \<and> item_size l1 = item_size l \<and>
      (\<forall>cell \<in> set cells. items w1 (fst cell) = None \<and> bufs w1 (snd cell) = None) \<and>
      linkedlist_add w1 e list val = Some (EINVAL, w1) \<and>
      linkedlist_remove w1 e list index = Some (EINVAL, w1) \<and>
      linkedlist_get w1 e list index buffer = Some (EINVAL, buffer, w1) \<and>
      linkedlist_update w1 e list index val = Some (EINVAL, w1) \<and>
      linkedlist_length w1 e list length_buffer = Some (EINVAL, length_buffer, w1) \<and>
      linkedlist_destroy w1 list = Some (w1\<lparr>trace := trace w1 @ [MutexDestroy]\<rparr>) \<and>
      unchanged w1 (w1\<lparr>trace := trace w1 @ [MutexDestroy]\<rparr>)"
proof -
  let ?l1 = "l\<lparr>head := NULL, copy := None, dealloc := None\<rparr>"
  from rep have nn: "list \<noteq> NULL" by (rule list_repD)
  from destroy_result [OF rep l] obtain w1 where
    w1: "linkedlist_destroy w list = Some w1" "lists w1 = (lists w)(list \<mapsto> ?l1)"
      "items w1 = (\<lambda>a. if a \<in> set (map fst cells) then None else items w a)"
      "bufs w1 = (\<lambda>a. if a \<in> set (map snd cells) then None else bufs w a)"
    by blast
  from w1(2) have l1: "lists w1 list = Some ?l1" by simp
  with nn have ni: "linkedlist_initialized w1 list = Some False"
    by (simp add: linkedlist_initialized_def)
  from w1(3,4) have freed: "\<forall>cell \<in> set cells. items w1 (fst cell) = None \<and> bufs w1 (snd cell) = None"
    by simp
  from destroy_destroyed [OF nn l1]
  have again: "linkedlist_destroy w1 list = Some (w1\<lparr>trace := trace w1 @ [MutexDestroy]\<rparr>)"
    by simp
  have "head ?l1 = NULL" "copy ?l1 = None" "dealloc ?l1 = None" "item_size ?l1 = item_size l"
    by simp_all
  with w1(1) l1 freed again not_initialized(1) [OF ni, of e val]
    not_initialized(2) [OF ni, of e index] not_initialized(3) [OF ni, of e index buffer]
    not_initialized(4) [OF ni, of e index val] not_initialized(5) [OF ni, of e length_buffer]
    unchanged_log(3) [of w1]
  show ?thesis by blast
qed

theorem destroy_idempotent_witness:
  "list_rep two_world 1 [(16, 32), (48, 64)] [[42, 0, 0, 0], [69, 0, 0, 0]] \<and>
   (\<exists>w1. linkedlist_destroy two_world 1 = Some w1 \<and>
      lists w1 1 = Some \<lparr>head = NULL, item_size = 4, copy = None, dealloc = None\<rparr> \<and>
      items w1 16 = None \<and> items w1 48 = None \<and> bufs w1 32 = None \<and> bufs w1 64 = None \<and>
      linkedlist_add w1 good_env 1 (Some [7, 0, 0, 0]) = Some (EINVAL, w1) \<and>
      linkedlist_length w1 good_env 1 (Some 7) = Some (EINVAL, Some 7, w1) \<and>
      linkedlist_destroy w1 1 = Some (w1\<lparr>trace := trace w1 @ [MutexDestroy]\<rparr>))"
proof -
  have rep: "list_rep two_world 1 [(16, 32), (48, 64)] [[42, 0, 0, 0], [69, 0, 0, 0]]"
    by (simp add: list_rep_def two_world_def)
  have l: "lists two_world 1 =
      Some \<lparr>head = 16, item_size = 4, copy = Some memcpy, dealloc = None\<rparr>"
    by (simp add: two_world_def)
  from destroy_idempotent [OF rep l, of good_env "Some [7, 0, 0, 0]" 0 None "Some 7"]
  obtain w1 l1 where
    d: "linkedlist_destroy two_world 1 = Some w1" "lists w1 1 = Some l1"
      "head l1 = NULL" "copy l1 = None" "dealloc l1 = None" "item_size l1 = 4"
      "\<forall>cell \<in> set [(16, 32), (48, 64)]. items w1 (fst cell) = None \<and> bufs w1 (snd cell) = None"
      "linkedlist_add w1 good_env 1 (Some [7, 0, 0, 0]) = Some (EINVAL, w1)"
      "linkedlist_length w1 good_env 1 (Some 7) = Some (EINVAL, Some 7, w1)"
      "linkedlist_destroy w1 1 = Some (w1\<lparr>trace := trace w1 @ [MutexDestroy]\<rparr>)"
    by auto
  from d(3-6) have "l1 = \<lparr>head = NULL, item_size = 4, copy = None, dealloc = None\<rparr>"
    by (cases l1) simp
  with rep d show ?thesis by auto
qed



text \<open>
  C10. \<^verbatim>\<open>linkedlist_add\<close>, \<^verbatim>\<open>linkedlist_remove\<close>, \<^verbatim>\<open>linkedlist_get\<close>,
  \<^verbatim>\<open>linkedlist_update\<close> and \<^verbatim>\<open>linkedlist_length\<close> never write the element size, the copy
  hook or the dealloc hook of the struct: after any sequence of these calls on an
  initialized, well-formed list, whatever each of them returned, every call has returned,
  the three members are what they were, and the list is still initialized.
\<close>

theorem initialized_preserved:
  assumes rep: "list_rep w list cells vs"
    and init: "linkedlist_initialized w list = Some True"
    and l: "lists w list = Some l"
  shows "\<exists>statuses w' l'. run w list calls = Some (statuses, w') \<and>
      length statuses = length calls \<and> lists w' list = Some l' \<and>
      item_size l' = item_size l \<and> copy l' = copy l \<and> dealloc l' = dealloc l \<and>
      linkedlist_initialized w' list = Some True"
proof -
  from run_rep [OF rep init l, of calls] obtain statuses w' h where
    r: "run w list calls = Some (statuses, w')" "length statuses = length calls"
      "linkedlist_initialized w' list = Some True"
      "lists w' = (lists w)(list \<mapsto> l\<lparr>head := h\<rparr>)"
    by blast
  from r(4) have "lists w' list = Some (l\<lparr>head := h\<rparr>)" by simp
  moreover have "item_size (l\<lparr>head := h\<rparr>) = item_size l" "copy (l\<lparr>head := h\<rparr>) = copy l"
    "dealloc (l\<lparr>head := h\<rparr>) = dealloc l"
    by simp_all
  ultimately show ?thesis using r(1,2,3) by blast
qed

theorem initialized_preserved_witness:
  "list_rep two_world 1 [(16, 32), (48, 64)] [[42, 0, 0, 0], [69, 0, 0, 0]] \<and>
   linkedlist_initialized two_world 1 = Some True \<and>
   (\<exists>statuses w' l'.
      run two_world 1
        [Add good_env (Some [7, 0, 0, 0]), Remove good_env 0, Remove good_env 9,
         Get good_env 1 (Some [0, 0, 0, 0]), Update good_env 0 None, Length good_env (Some 0),
         Add (good_env\<lparr>mutex_status := 11\<rparr>) (Some [7, 0, 0, 0])] =
        Some (statuses, w') \<and>
      length statuses = 7 \<and> lists w' 1 = Some l' \<and>
      item_size l' = 4 \<and> copy l' = Some memcpy \<and> dealloc l' = None \<and>
      linkedlist_initialized w' 1 = Some True)"
proof -
  have rep: "list_rep two_world 1 [(16, 32), (48, 64)] [[42, 0, 0, 0], [69, 0, 0, 0]]"
    by (simp add: list_rep_def two_world_def)
  have init: "linkedlist_initialized two_world 1 = Some True"
    by (simp add: linkedlist_initialized_def two_world_def)
  have l: "lists two_world 1 =
      Some \<lparr>head = 16, item_size = 4, copy = Some memcpy, dealloc = None\<rparr>"
    by (simp add: two_world_def)
  define calls where "calls =
    [Add good_env (Some [7, 0, 0, 0]), Remove good_env 0, Remove good_env 9,
     Get good_env 1 (Some [0, 0, 0, 0]), Update good_env 0 None, Length good_env (Some 0),
     Add (good_env\<lparr>mutex_status := 11\<rparr>) (Some [7, 0, 0, 0])]"
  have len: "length calls = 7"
    by (simp add: calls_def)
  from initialized_preserved [OF rep init l, of calls] len
  have "\<exists>statuses w' l'. run two_world 1 calls = Some (statuses, w') \<and>
      length statuses = 7 \<and> lists w' 1 = Some l' \<and>
      item_size l' = 4 \<and> copy l' = Some memcpy \<and> dealloc l' = None \<and>
      linkedlist_initialized w' 1 = Some True"
    by simp
  with rep init show ?thesis
    unfolding calls_def by (intro conjI)
qed

end
